theory Spec2Isabelle
  imports Complex_Main
begin

section \<open>Anna KaRNNa: vocabulary, batching and sampling\<close>

text \<open>
  A shallow embedding of the notebook's own code (\<^verbatim>\<open>tensorboard/Anna_KaRNNa.ipynb\<close>):
  the vocabulary builder, \<^verbatim>\<open>split_data\<close>, \<^verbatim>\<open>get_batch\<close>, \<^verbatim>\<open>pick_top_n\<close> and
  \<^verbatim>\<open>sample\<close>.  The neural network itself (TensorFlow) is a parameter of the model.

  Conventions.
  \<^item> Every exception the code can raise is a value of \<open>error\<close>; a function that can
    raise returns \<open>error + 'a\<close> with \<open>Inl\<close> for the exception.
  \<^item> \<^verbatim>\<open>batch_size\<close>, \<^verbatim>\<open>num_steps\<close>, \<^verbatim>\<open>top_n\<close> and \<^verbatim>\<open>n_samples\<close> are counts and have
    type \<open>nat\<close>; character codes (\<^verbatim>\<open>np.int32\<close> in the notebook) are \<open>nat\<close> as well.
  \<^item> Python floats (\<^verbatim>\<open>split_frac\<close>, the probabilities) are finite and are exact
    rationals: rounding is not modelled, and neither are \<^verbatim>\<open>nan\<close> and \<^verbatim>\<open>inf\<close> (on which
    \<^verbatim>\<open>int\<close> raises).  For \<^verbatim>\<open>split_frac\<close> rounding can move the cut between training
    and validation columns by one batch; it does not touch the matrices \<open>x\<close> and \<open>y\<close>
    built before the cut, and a product with \<open>n_batches = 0\<close> is exactly zero.
  \<^item> \<^verbatim>\<open>int(a / b)\<close> on non-negative Python ints is \<open>a div b\<close> (true for operands
    below \<open>2^53\<close>), and raises \<^verbatim>\<open>ZeroDivisionError\<close> for \<open>b = 0\<close>.
\<close>

datatype error =
    ZeroDivisionError
  | ValueError
  | KeyError
  | IndexError
  | NameError
  | CheckpointError

subsection \<open>Two-dimensional arrays and Python slices\<close>

text \<open>
  A two-dimensional numpy array: its column count (the second component of
  \<^verbatim>\<open>shape\<close>) and its rows.  The column count is stored because an array may have no
  row.  \<open>wf_matrix\<close> says that every row has that many entries.
\<close>

record 'a matrix =
  ncols :: nat
  rows :: "'a list list"

definition wf_matrix :: "'a matrix \<Rightarrow> bool" where
  "wf_matrix m = list_all (\<lambda>r. length r = ncols m) (rows m)"

definition shape :: "'a matrix \<Rightarrow> nat \<times> nat" where
  "shape m = (length (rows m), ncols m)"

text \<open>Entry \<^verbatim>\<open>m[i, j]\<close>, read only at valid indices.\<close>

definition entry :: "'a matrix \<Rightarrow> nat \<Rightarrow> nat \<Rightarrow> 'a" where
  "entry m i j = rows m ! i ! j"

text \<open>
  Python's slice bounds: a negative bound counts from the end, and every bound is
  clipped to the length (\<^verbatim>\<open>xs[a:b]\<close> never raises).
\<close>

definition clip_index :: "nat \<Rightarrow> int \<Rightarrow> nat" where
  "clip_index len i = (if i < 0 then nat (int len + i) else min (nat i) len)"

text \<open>\<^verbatim>\<open>xs[a:b]\<close> for non-negative \<open>a\<close> and \<open>b\<close>.\<close>

definition slice :: "nat \<Rightarrow> nat \<Rightarrow> 'a list \<Rightarrow> 'a list" where
  "slice a b xs = drop a (take b xs)"

text \<open>\<^verbatim>\<open>m[:, :k]\<close> and \<^verbatim>\<open>m[:, k:]\<close> for any Python int \<open>k\<close>.\<close>

definition cols_upto :: "int \<Rightarrow> 'a matrix \<Rightarrow> 'a matrix" where
  "cols_upto k m =
     (let c = clip_index (ncols m) k
      in \<lparr>ncols = c, rows = map (take c) (rows m)\<rparr>)"

definition cols_from :: "int \<Rightarrow> 'a matrix \<Rightarrow> 'a matrix" where
  "cols_from k m =
     (let c = clip_index (ncols m) k
      in \<lparr>ncols = ncols m - c, rows = map (drop c) (rows m)\<rparr>)"

text \<open>\<^verbatim>\<open>m[:, a:b]\<close> for non-negative \<open>a\<close> and \<open>b\<close>.\<close>

definition cols_slice :: "nat \<Rightarrow> nat \<Rightarrow> 'a matrix \<Rightarrow> 'a matrix" where
  "cols_slice a b m =
     \<lparr>ncols = min b (ncols m) - min a (ncols m), rows = map (slice a b) (rows m)\<rparr>"

text \<open>
  \<^verbatim>\<open>np.split(xs, sections)\<close> with an integer \<open>sections\<close>: the length must be a
  multiple of \<open>sections\<close> (\<^verbatim>\<open>ValueError: array split does not result in an equal
  division\<close> otherwise); the parts are consecutive and of equal length.
\<close>

definition np_split :: "'a list \<Rightarrow> nat \<Rightarrow> error + 'a list list" where
  "np_split xs sections =
     (if sections = 0 then Inl ZeroDivisionError
      else if length xs mod sections \<noteq> 0 then Inl ValueError
      else let k = length xs div sections
           in Inr (map (\<lambda>i. slice (i * k) ((i + 1) * k) xs) [0..<sections]))"

text \<open>
  \<^verbatim>\<open>np.stack(parts)\<close> of one-dimensional arrays: they become the rows of a matrix.
  It raises \<^verbatim>\<open>ValueError\<close> for an empty list and for parts of different lengths.
\<close>

definition np_stack :: "'a list list \<Rightarrow> error + 'a matrix" where
  "np_stack parts =
     (case parts of
        [] \<Rightarrow> Inl ValueError
      | p # ps \<Rightarrow>
          if list_all (\<lambda>q. length q = length p) ps
          then Inr \<lparr>ncols = length p, rows = parts\<rparr>
          else Inl ValueError)"

text \<open>Python's \<^verbatim>\<open>int(q)\<close> on a float: truncation towards zero.\<close>

definition py_int :: "rat \<Rightarrow> int" where
  "py_int q = (if 0 \<le> q then \<lfloor>q\<rfloor> else \<lceil>q\<rceil>)"

subsection \<open>The vocabulary builder\<close>

text \<open>
  \<^verbatim>\<open>
  vocab = set(text)
  vocab_to_int = {c: i for i, c in enumerate(vocab)}
  int_to_vocab = dict(enumerate(vocab))
  chars = np.array([vocab_to_int[c] for c in text], dtype=np.int32)
  \<close>
  Python does not specify the order in which a set is enumerated, only that two
  enumerations of the same unmodified set agree.  The enumeration of \<^verbatim>\<open>set(text)\<close>
  is therefore the list \<open>vocab\<close>, a parameter; \<open>enumerates vocab text\<close> says that it
  lists the distinct characters of the text, each once.
\<close>

definition enumerates :: "'a list \<Rightarrow> 'a list \<Rightarrow> bool" where
  "enumerates vocab text = (distinct vocab \<and> set vocab = set text)"

text \<open>The pairs \<open>(i, c)\<close> of \<^verbatim>\<open>enumerate(vocab)\<close>.\<close>

definition enumerate_py :: "'a list \<Rightarrow> (nat \<times> 'a) list" where
  "enumerate_py xs = zip [0..<length xs] xs"

text \<open>A dict built entry by entry: a later pair with the same key replaces the earlier.\<close>

definition dict_of :: "('k \<times> 'v) list \<Rightarrow> ('k \<rightharpoonup> 'v)" where
  "dict_of kvs = fold (\<lambda>(k, v) d. d(k \<mapsto> v)) kvs Map.empty"

definition vocab_to_int :: "'a list \<Rightarrow> ('a \<rightharpoonup> nat)" where
  "vocab_to_int vocab = dict_of (map (\<lambda>(i, c). (c, i)) (enumerate_py vocab))"

definition int_to_vocab :: "'a list \<Rightarrow> (nat \<rightharpoonup> 'a)" where
  "int_to_vocab vocab = dict_of (enumerate_py vocab)"

text \<open>\<^verbatim>\<open>d[k]\<close>: raises \<^verbatim>\<open>KeyError\<close> for a missing key.\<close>

definition lookup :: "('k \<rightharpoonup> 'v) \<Rightarrow> 'k \<Rightarrow> error + 'v" where
  "lookup d k = (case d k of None \<Rightarrow> Inl KeyError | Some v \<Rightarrow> Inr v)"

text \<open>\<^verbatim>\<open>[vocab_to_int[c] for c in text]\<close>: stops at the first missing key.\<close>

fun encode :: "('a \<rightharpoonup> nat) \<Rightarrow> 'a list \<Rightarrow> error + nat list" where
  "encode d [] = Inr []"
| "encode d (c # cs) =
     (case lookup d c of
        Inl e \<Rightarrow> Inl e
      | Inr i \<Rightarrow> (case encode d cs of Inl e \<Rightarrow> Inl e | Inr is \<Rightarrow> Inr (i # is)))"

subsection \<open>The batch splitter\<close>

text \<open>
  \<^verbatim>\<open>
  def split_data(chars, batch_size, num_steps, split_frac=0.9):
      slice_size = batch_size * num_steps
      n_batches = int(len(chars) / slice_size)
      x = chars[: n_batches*slice_size]
      y = chars[1: n_batches*slice_size + 1]
      x = np.stack(np.split(x, batch_size))
      y = np.stack(np.split(y, batch_size))
      # Now x and y are arrays with dimensions batch_size x n_batches*num_steps
      split_idx = int(n_batches*split_frac)
      train_x, train_y= x[:, :split_idx*num_steps], y[:, :split_idx*num_steps]
      val_x, val_y = x[:, split_idx*num_steps:], y[:, split_idx*num_steps:]
      return train_x, train_y, val_x, val_y
  \<close>
  The body is modelled in two parts, cut at the comment: \<open>stack_xy\<close> builds the batch
  matrix \<open>x\<close> and the target matrix \<open>y\<close>, and \<open>split_data\<close> cuts both into the
  training and the validation columns.  \<open>n_batches_of\<close> is the value of \<^verbatim>\<open>n_batches\<close>
  where \<^verbatim>\<open>slice_size\<close> is not zero.
\<close>

definition n_batches_of :: "nat \<Rightarrow> nat \<Rightarrow> nat \<Rightarrow> nat" where
  "n_batches_of len batch_size num_steps = len div (batch_size * num_steps)"

definition stack_xy :: "'a list \<Rightarrow> nat \<Rightarrow> nat \<Rightarrow> error + ('a matrix \<times> 'a matrix)" where
  "stack_xy chars batch_size num_steps =
     (let slice_size = batch_size * num_steps in
      if slice_size = 0 then Inl ZeroDivisionError
      else
        let n_batches = length chars div slice_size;
            x = slice 0 (n_batches * slice_size) chars;
            y = slice 1 (n_batches * slice_size + 1) chars
        in case np_split x batch_size of
             Inl e \<Rightarrow> Inl e
           | Inr xs \<Rightarrow>
               (case np_stack xs of
                  Inl e \<Rightarrow> Inl e
                | Inr xm \<Rightarrow>
                    (case np_split y batch_size of
                       Inl e \<Rightarrow> Inl e
                     | Inr ys \<Rightarrow>
                         (case np_stack ys of
                            Inl e \<Rightarrow> Inl e
                          | Inr ym \<Rightarrow> Inr (xm, ym)))))"

definition split_data ::
  "'a list \<Rightarrow> nat \<Rightarrow> nat \<Rightarrow> rat \<Rightarrow>
     error + ('a matrix \<times> 'a matrix \<times> 'a matrix \<times> 'a matrix)" where
  "split_data chars batch_size num_steps split_frac =
     (case stack_xy chars batch_size num_steps of
        Inl e \<Rightarrow> Inl e
      | Inr (x, y) \<Rightarrow>
          let n_batches = n_batches_of (length chars) batch_size num_steps;
              split_idx = py_int (of_nat n_batches * split_frac);
              k = split_idx * int num_steps
          in Inr (cols_upto k x, cols_upto k y, cols_from k x, cols_from k y))"

subsection \<open>The batch iterator\<close>

text \<open>
  \<^verbatim>\<open>
  def get_batch(arrs, num_steps):
      batch_size, slice_size = arrs[0].shape
      n_batches = int(slice_size/num_steps)
      for b in range(n_batches):
          yield [x[:, b*num_steps: (b+1)*num_steps] for x in arrs]
  \<close>
  The generator is modelled by the finite list of the values it yields, in the order
  in which it yields them, or by the exception its first step raises.
\<close>

definition get_batch :: "'a matrix list \<Rightarrow> nat \<Rightarrow> error + 'a matrix list list" where
  "get_batch arrs num_steps =
     (case arrs of
        [] \<Rightarrow> Inl IndexError
      | a0 # _ \<Rightarrow>
          let slice_size = snd (shape a0) in
          if num_steps = 0 then Inl ZeroDivisionError
          else
            let n_batches = slice_size div num_steps
            in Inr (map (\<lambda>b. map (cols_slice (b * num_steps) ((b + 1) * num_steps)) arrs)
                      [0..<n_batches]))"

subsection \<open>Top-N sampling\<close>

text \<open>
  \<^verbatim>\<open>
  def pick_top_n(preds, vocab_size, top_n=5):
      p = np.squeeze(preds)
      p[np.argsort(p)[:-top_n]] = 0
      p = p / np.sum(p)
      c = np.random.choice(vocab_size, 1, p=p)[0]
      return c
  \<close>
  Arrays live in a store, a map from addresses to buffers, so that two names for one
  buffer are one address.  A buffer is the flat list of its entries; the array at an
  address is the \<open>(1, V)\<close> prediction array whose \<open>V\<close> entries the buffer lists.
\<close>

type_synonym addr = nat
type_synonym store = "addr \<Rightarrow> rat list"

text \<open>
  \<^verbatim>\<open>np.squeeze(a)\<close> returns \<^verbatim>\<open>a\<close> itself or a view into it (numpy's documentation):
  the result has the address of the argument.  It removes every axis of length 1:
  the view of a \<open>(1, V)\<close> array has shape \<open>(V,)\<close>, one dimension, unless \<open>V = 1\<close>, where
  both axes go and the view has no dimension.  The result is the address and the
  number of dimensions of the view.
\<close>

definition np_squeeze :: "store \<Rightarrow> addr \<Rightarrow> addr \<times> nat" where
  "np_squeeze h a = (a, if length (h a) = 1 then 0 else 1)"

text \<open>
  \<^verbatim>\<open>np.argsort\<close> returns the indices that sort its argument in ascending order.  Its
  default sort is not stable, so the order of indices of equal entries is not
  specified: the function is a parameter \<open>argsort\<close>, and \<open>is_argsort p idx\<close> says that
  \<open>idx\<close> is an admissible result for \<open>p\<close>.
\<close>

definition is_argsort :: "rat list \<Rightarrow> nat list \<Rightarrow> bool" where
  "is_argsort p idx =
     (distinct idx \<and> set idx = set [0..<length p] \<and> sorted (map (\<lambda>i. p ! i) idx))"

text \<open>One admissible \<^verbatim>\<open>argsort\<close>: insertion sort of the indices by their entries.\<close>

definition argsort_insertion :: "rat list \<Rightarrow> nat list" where
  "argsort_insertion p = sort_key (\<lambda>i. p ! i) [0..<length p]"

text \<open>\<^verbatim>\<open>xs[:-n]\<close>: all but the last \<open>n\<close> entries (and nothing for \<open>n = 0\<close>).\<close>

definition all_but_last :: "nat \<Rightarrow> 'a list \<Rightarrow> 'a list" where
  "all_but_last n xs = take (clip_index (length xs) (- int n)) xs"

text \<open>\<^verbatim>\<open>p[idx] = 0\<close> with an index array: every listed position is overwritten in place.\<close>

definition zero_at :: "nat list \<Rightarrow> rat list \<Rightarrow> rat list" where
  "zero_at idx p = fold (\<lambda>i q. q[i := 0]) idx p"

text \<open>
  The assignment \<^verbatim>\<open>p[idx] = 0\<close> on a view with \<open>ndim\<close> dimensions.  numpy raises
  \<^verbatim>\<open>IndexError\<close> when the view has no dimension (an index array, even an empty one,
  is one index too many) and when an index is out of range.
\<close>

definition assign_zero :: "nat \<Rightarrow> nat list \<Rightarrow> rat list \<Rightarrow> error + rat list" where
  "assign_zero ndim idx p =
     (if ndim = 0 then Inl IndexError
      else if list_ex (\<lambda>i. length p \<le> i) idx then Inl IndexError
      else Inr (zero_at idx p))"

text \<open>
  \<^verbatim>\<open>np.random.choice(a, 1, p=p)[0]\<close>.  numpy raises \<^verbatim>\<open>ValueError\<close> unless \<open>a > 0\<close>,
  \<open>p\<close> has \<open>a\<close> entries, none negative, and they sum to 1.  It then draws a uniform
  \<open>u\<close> from \<open>[0, 1)\<close> and returns the number of entries of the cumulative sums of \<open>p\<close>
  that are at most \<open>u\<close> (\<^verbatim>\<open>cdf.searchsorted(u, side='right')\<close>).  The draw \<open>u\<close> is a
  parameter.
\<close>

fun cdf_search :: "rat \<Rightarrow> rat \<Rightarrow> rat list \<Rightarrow> nat" where
  "cdf_search u acc [] = 0"
| "cdf_search u acc (q # qs) =
     (if u < acc + q then 0 else Suc (cdf_search u (acc + q) qs))"

definition random_choice :: "nat \<Rightarrow> rat list \<Rightarrow> rat \<Rightarrow> error + nat" where
  "random_choice a p u =
     (if a = 0 then Inl ValueError
      else if length p \<noteq> a then Inl ValueError
      else if list_ex (\<lambda>q. q < 0) p then Inl ValueError
      else if sum_list p \<noteq> 1 then Inl ValueError
      else Inr (cdf_search u 0 p))"

text \<open>
  \<open>pick_top_n argsort u h preds vocab_size top_n\<close> runs the function in the store \<open>h\<close>
  on the array at address \<open>preds\<close> and returns its result with the store it leaves.
  An exception of the assignment leaves the store as it was.  The quotient \<^verbatim>\<open>p / np.sum(p)\<close> is a new array bound to the local name \<open>p\<close>; nothing
  else refers to it, so it is a value and not a cell of the store.  (Where the sum is
  0 numpy divides to NaN and \<^verbatim>\<open>choice\<close> raises \<^verbatim>\<open>ValueError\<close>; here the quotient is the
  zero vector and \<open>random_choice\<close> raises the same error.)
\<close>

text \<open>\<^verbatim>\<open>p / np.sum(p)\<close>: a new array.\<close>

definition renormalize :: "rat list \<Rightarrow> rat list" where
  "renormalize p = map (\<lambda>v. v / sum_list p) p"

definition pick_top_n ::
  "(rat list \<Rightarrow> nat list) \<Rightarrow> rat \<Rightarrow> store \<Rightarrow> addr \<Rightarrow> nat \<Rightarrow> nat \<Rightarrow> (error + nat) \<times> store" where
  "pick_top_n argsort u h preds vocab_size top_n =
     (case np_squeeze h preds of
        (p, ndim) \<Rightarrow>
          (case assign_zero ndim (all_but_last top_n (argsort (h p))) (h p) of
             Inl e \<Rightarrow> (Inl e, h)
           | Inr z \<Rightarrow>
               let h' = h(p := z);
                   q = renormalize (h' p)
               in (random_choice vocab_size q u, h')))"

subsection \<open>The sampler\<close>

text \<open>
  \<^verbatim>\<open>
  def sample(checkpoint, n_samples, lstm_size, vocab_size, prime="The "):
      prime = "Far"
      samples = [c for c in prime]
      model = build_rnn(vocab_size, lstm_size=lstm_size, sampling=True)
      saver = tf.train.Saver()
      with tf.Session() as sess:
          saver.restore(sess, checkpoint)
          new_state = sess.run(model.initial_state)
          for c in prime:
              x = np.zeros((1, 1))
              x[0,0] = vocab_to_int[c]
              feed = {...}
              preds, new_state = sess.run([model.preds, model.final_state], feed_dict=feed)
          c = pick_top_n(preds, len(vocab))
          samples.append(int_to_vocab[c])
          for i in range(n_samples):
              x[0,0] = c
              feed = {...}
              preds, new_state = sess.run([model.preds, model.final_state], feed_dict=feed)
              c = pick_top_n(preds, len(vocab))
              samples.append(int_to_vocab[c])
      return ''.join(samples)
  \<close>
  The network is a parameter: \<open>initial_state\<close> is its zero state and \<open>run c s\<close> is one
  \<^verbatim>\<open>sess.run\<close> on the character code \<open>c\<close> in state \<open>s\<close>, giving the predictions and
  the next state.
\<close>

record 'st rnn =
  initial_state :: 'st
  run :: "nat \<Rightarrow> 'st \<Rightarrow> rat list \<times> 'st"

text \<open>
  What \<^verbatim>\<open>sample\<close> takes from outside its arguments: the checkpoint loader
  (\<^verbatim>\<open>build_rnn\<close> and \<^verbatim>\<open>saver.restore\<close>, which may fail), \<^verbatim>\<open>argsort\<close>, the uniform draws
  of successive \<^verbatim>\<open>np.random.choice\<close> calls, and the notebook's global \<^verbatim>\<open>vocab\<close> (in
  its enumeration order), from which the globals \<^verbatim>\<open>vocab_to_int\<close> and \<^verbatim>\<open>int_to_vocab\<close>
  are built.
\<close>

record 'st world =
  saver_restore :: "string \<Rightarrow> nat \<Rightarrow> nat \<Rightarrow> error + 'st rnn"
  np_argsort :: "rat list \<Rightarrow> nat list"
  draws :: "nat \<Rightarrow> rat"
  vocab :: "char list"

text \<open>
  The \<open>k\<close>-th call \<^verbatim>\<open>pick_top_n(preds, len(vocab))\<close> of a run, with the default
  \<open>top_n = 5\<close>.  \<open>preds\<close> is a fresh array that \<^verbatim>\<open>sample\<close> does not read after the
  call, so the store the call leaves is dropped.
\<close>

definition pick :: "'st world \<Rightarrow> nat \<Rightarrow> rat list \<Rightarrow> error + nat" where
  "pick w k preds =
     fst (pick_top_n (np_argsort w) (draws w k) (\<lambda>_. preds) 0 (length (vocab w)) 5)"

text \<open>
  The priming loop.  \<open>preds\<close> is unbound before the first iteration (\<open>None\<close>).
\<close>

fun prime_loop ::
  "'st rnn \<Rightarrow> (char \<rightharpoonup> nat) \<Rightarrow> string \<Rightarrow> rat list option \<times> 'st \<Rightarrow>
     error + (rat list option \<times> 'st)" where
  "prime_loop m d [] ps = Inr ps"
| "prime_loop m d (c # cs) (preds, new_state) =
     (case lookup d c of
        Inl e \<Rightarrow> Inl e
      | Inr x \<Rightarrow>
          (case run m x new_state of
             (preds', new_state') \<Rightarrow> prime_loop m d cs (Some preds', new_state')))"

text \<open>
  The generation loop: \<open>n\<close> iterations left, \<open>k\<close> calls of \<^verbatim>\<open>pick_top_n\<close> made so far,
  \<open>c\<close> the last code picked.
\<close>

fun gen_loop ::
  "'st world \<Rightarrow> 'st rnn \<Rightarrow> nat \<Rightarrow> nat \<Rightarrow> nat \<Rightarrow> 'st \<Rightarrow> string \<Rightarrow> error + string" where
  "gen_loop w m 0 k c new_state samples = Inr samples"
| "gen_loop w m (Suc n) k c new_state samples =
     (case run m c new_state of
        (preds, new_state') \<Rightarrow>
          (case pick w k preds of
             Inl e \<Rightarrow> Inl e
           | Inr c' \<Rightarrow>
               (case lookup (int_to_vocab (vocab w)) c' of
                  Inl e \<Rightarrow> Inl e
                | Inr ch \<Rightarrow> gen_loop w m n (Suc k) c' new_state' (samples @ [ch]))))"

definition sample ::
  "'st world \<Rightarrow> string \<Rightarrow> nat \<Rightarrow> nat \<Rightarrow> nat \<Rightarrow> string \<Rightarrow> error + string" where
  "sample w checkpoint n_samples lstm_size vocab_size prime_arg =
     (let prime = ''Far'';
          samples = prime
      in case saver_restore w checkpoint lstm_size vocab_size of
           Inl e \<Rightarrow> Inl e
         | Inr m \<Rightarrow>
             (case prime_loop m (vocab_to_int (vocab w)) prime (None, initial_state m) of
                Inl e \<Rightarrow> Inl e
              | Inr (None, new_state) \<Rightarrow> Inl NameError
              | Inr (Some preds, new_state) \<Rightarrow>
                  (case pick w 0 preds of
                     Inl e \<Rightarrow> Inl e
                   | Inr c \<Rightarrow>
                       (case lookup (int_to_vocab (vocab w)) c of
                          Inl e \<Rightarrow> Inl e
                        | Inr ch \<Rightarrow>
                            gen_loop w m n_samples 1 c new_state (samples @ [ch])))))"

text \<open>
  A small world for evaluating the sampler: the vocabulary of the text \<open>Far The\<close>, a
  network without memory that always predicts the first character of the
  vocabulary, and draws that are all \<open>1/2\<close>.
\<close>

definition toy_rnn :: "unit rnn" where
  "toy_rnn = \<lparr>initial_state = (), run = (\<lambda>c s. ([1, 0, 0, 0, 0, 0, 0], s))\<rparr>"

definition toy_world :: "unit world" where
  "toy_world =
     \<lparr>saver_restore = (\<lambda>checkpoint lstm_size vocab_size. Inr toy_rnn),
      np_argsort = argsort_insertion,
      draws = (\<lambda>k. 1 / 2),
      vocab = ''Far The''\<rparr>"

section \<open>Properties\<close>

subsection \<open>Slices, \<open>np_split\<close> and \<open>np_stack\<close>\<close>

lemma length_slice: "length (slice a b xs) = min b (length xs) - a"
  by (simp add: slice_def)

lemma nth_slice: "a + j < min b (length xs) \<Longrightarrow> slice a b xs ! j = xs ! (a + j)"
  by (simp add: slice_def)

lemma concat_slices: "concat (map (\<lambda>i. slice (i * k) ((i + 1) * k) xs) [0..<m]) = take (m * k) xs"
proof (induction m)
  case 0
  then show ?case by simp
next
  case (Suc m)
  have "take (m * k + k) xs = take (m * k) xs @ take k (drop (m * k) xs)"
    by (rule take_add)
  moreover have "slice (m * k) ((m + 1) * k) xs = take k (drop (m * k) xs)"
    unfolding slice_def drop_take by simp
  ultimately have "take (Suc m * k) xs = take (m * k) xs @ slice (m * k) ((m + 1) * k) xs"
    by (simp add: add.commute)
  with Suc show ?case by simp
qed

lemma np_split_stack:
  assumes "np_split xs b = Inr ps"
  shows "np_stack ps = Inr \<lparr>ncols = length xs div b, rows = ps\<rparr>"
    and "ps = map (\<lambda>i. slice (i * (length xs div b)) ((i + 1) * (length xs div b)) xs) [0..<b]"
    and "0 < b" and "length xs mod b = 0"
proof -
  let ?k = "length xs div b"
  from assms show b: "0 < b" and m: "length xs mod b = 0"
    by (auto simp: np_split_def split: if_splits)
  from assms b m show ps: "ps = map (\<lambda>i. slice (i * ?k) ((i + 1) * ?k) xs) [0..<b]"
    by (auto simp: np_split_def Let_def)
  have len: "length xs = b * ?k" using m by (metis mult_div_mod_eq add.right_neutral)
  have each: "length (slice (i * ?k) ((i + 1) * ?k) xs) = ?k" if "i < b" for i
  proof -
    have "(i + 1) * ?k \<le> b * ?k" using that by (intro mult_le_mono1) simp
    then have "min ((i + 1) * ?k) (length xs) = (i + 1) * ?k" using len by simp
    then show ?thesis by (simp add: length_slice)
  qed
  obtain p ps' where pp: "ps = p # ps'" using ps b by (cases ps) auto
  have "\<forall>q\<in>set ps. length q = ?k" using ps each by auto
  then have "length p = ?k" "list_all (\<lambda>q. length q = length p) ps'"
    using pp by (auto simp: list_all_iff)
  then show "np_stack ps = Inr \<lparr>ncols = length xs div b, rows = ps\<rparr>"
    using pp by (simp add: np_stack_def)
qed


lemma slice_take: "b \<le> c \<Longrightarrow> slice a b (take c xs) = slice a b xs"
  by (simp add: slice_def min_def)

lemma stack_xy_Inr:
  assumes ok: "stack_xy chars B T = Inr (x, y)"
  defines "n \<equiv> length chars div (B * T)"
  defines "ys \<equiv> slice 1 (n * (B * T) + 1) chars"
  shows "0 < B" and "0 < T"
    and "x = \<lparr>ncols = n * T, rows = map (\<lambda>i. slice (i * (n * T)) ((i + 1) * (n * T)) chars) [0..<B]\<rparr>"
    and "length ys mod B = 0"
    and "y = \<lparr>ncols = length ys div B,
               rows = map (\<lambda>i. slice (i * (length ys div B)) ((i + 1) * (length ys div B)) ys) [0..<B]\<rparr>"
proof -
  let ?S = "B * T"
  let ?xs = "slice 0 (n * ?S) chars"
  from ok have S: "0 < ?S"
    by (auto simp: stack_xy_def Let_def split: if_splits)
  then show "0 < B" and "0 < T" by auto
  from ok S obtain xp yp where
    xp: "np_split ?xs B = Inr xp" and xs: "np_stack xp = Inr x" and
    yp: "np_split ys B = Inr yp" and ys: "np_stack yp = Inr y"
    by (auto simp: stack_xy_def Let_def n_def ys_def split: sum.splits)
  have "n * ?S \<le> length chars" by (simp add: n_def)
  then have lx: "length ?xs = n * ?S" by (simp add: slice_def)
  then have dx: "length ?xs div B = n * T" using S by simp
  have "x = \<lparr>ncols = n * T, rows = map (\<lambda>i. slice (i * (n * T)) ((i + 1) * (n * T)) ?xs) [0..<B]\<rparr>"
    using np_split_stack(1,2)[OF xp] xs dx by simp
  moreover have "slice (i * (n * T)) ((i + 1) * (n * T)) ?xs = slice (i * (n * T)) ((i + 1) * (n * T)) chars"
    if "i < B" for i
  proof -
    have "(i + 1) * (n * T) \<le> B * (n * T)" using that by (intro mult_le_mono1) simp
    then have "(i + 1) * (n * T) \<le> n * ?S" by (simp add: mult.assoc mult.left_commute)
    then show ?thesis unfolding slice_def[of 0] by (simp add: slice_take)
  qed
  ultimately show "x = \<lparr>ncols = n * T, rows = map (\<lambda>i. slice (i * (n * T)) ((i + 1) * (n * T)) chars) [0..<B]\<rparr>"
    by simp
  show "length ys mod B = 0" by (rule np_split_stack(4)[OF yp])
  show "y = \<lparr>ncols = length ys div B,
               rows = map (\<lambda>i. slice (i * (length ys div B)) ((i + 1) * (length ys div B)) ys) [0..<B]\<rparr>"
    using np_split_stack(1,2)[OF yp] ys by simp
qed

lemma np_split_uneven: "0 < b \<Longrightarrow> length xs mod b \<noteq> 0 \<Longrightarrow> np_split xs b = Inl ValueError"
  by (simp add: np_split_def)

lemma np_split_even: "0 < b \<Longrightarrow> length xs mod b = 0 \<Longrightarrow> \<exists>ps. np_split xs b = Inr ps"
  by (simp add: np_split_def Let_def)

lemma stack_xy_exact_multiple:
  assumes "2 \<le> B" "0 < T" "0 < n" "length chars = n * (B * T)"
  shows "stack_xy chars B T = Inl ValueError"
proof -
  let ?S = "B * T"
  have S: "0 < ?S" using assms by simp
  have n: "length chars div ?S = n" using assms S by simp
  have lx: "length (slice 0 (n * ?S) chars) = n * ?S" using assms by (simp add: slice_def)
  have ly: "length (slice 1 (n * ?S + 1) chars) = n * ?S - 1" using assms by (simp add: slice_def)
  have pos: "0 < n * ?S" using assms by simp
  have "\<not> B dvd (n * ?S - 1)"
  proof
    assume d: "B dvd (n * ?S - 1)"
    have "B dvd n * ?S" by simp
    then have "B dvd (n * ?S - (n * ?S - 1))" using d by (rule dvd_diff_nat)
    then have "B dvd 1" using pos by simp
    then show False using assms(1) by simp
  qed
  then have my: "(n * ?S - 1) mod B \<noteq> 0" by (simp add: mod_eq_0_iff_dvd)
  have B: "B \<noteq> 0" using assms by simp
  have "0 < B" using assms by simp
  have "length (slice 0 (n * ?S) chars) mod B = 0" unfolding lx by simp
  with \<open>0 < B\<close> have "\<exists>xp. np_split (slice 0 (n * ?S) chars) B = Inr xp"
    by (rule np_split_even)
  then obtain xp where sx: "np_split (slice 0 (n * ?S) chars) B = Inr xp" ..
  have "length (slice 1 (n * ?S + 1) chars) mod B \<noteq> 0" unfolding ly using my .
  with \<open>0 < B\<close> have sy: "np_split (slice 1 (n * ?S + 1) chars) B = Inl ValueError"
    by (rule np_split_uneven)
  have st: "np_stack xp = Inr \<lparr>ncols = length (slice 0 (n * ?S) chars) div B, rows = xp\<rparr>"
    by (rule np_split_stack(1)[OF sx])
  have "stack_xy chars B T =
     (case np_split (slice 0 (n * ?S) chars) B of
             Inl e \<Rightarrow> Inl e
           | Inr xs \<Rightarrow>
               (case np_stack xs of
                  Inl e \<Rightarrow> Inl e
                | Inr xm \<Rightarrow>
                    (case np_split (slice 1 (n * ?S + 1) chars) B of
                       Inl e \<Rightarrow> Inl e
                     | Inr ys \<Rightarrow>
                         (case np_stack ys of
                            Inl e \<Rightarrow> Inl e
                          | Inr ym \<Rightarrow> Inr (xm, ym)))))"
    using S by (simp add: stack_xy_def Let_def n del: One_nat_def)
  also have "\<dots> = Inl ValueError"
    by (simp add: sx sy st del: One_nat_def)
  finally show ?thesis .
qed

lemma split_data_Inr_stack:
  "split_data chars B T f = Inr r \<Longrightarrow> \<exists>x y. stack_xy chars B T = Inr (x, y)"
  by (auto simp: split_data_def split: sum.splits)

lemma stack_xy_short:
  assumes "length chars < B * T"
  shows "stack_xy chars B T = Inr (\<lparr>ncols = 0, rows = replicate B []\<rparr>, \<lparr>ncols = 0, rows = replicate B []\<rparr>)"
proof -
  have "0 < B * T" using assms by (rule le_less_trans[OF le0])
  then have S: "B * T \<noteq> 0" and B: "B \<noteq> 0" by simp_all
  have n: "length chars div (B * T) = 0" using assms by simp
  have sp: "np_split ([] :: 'a list) B = Inr (replicate B [])"
    using B by (simp add: np_split_def slice_def map_replicate_const del: upt_Suc)
  have st: "np_stack (replicate B ([] :: 'a list)) = Inr \<lparr>ncols = 0, rows = replicate B []\<rparr>"
    using B by (cases B) (simp_all add: np_stack_def list_all_iff)
  show ?thesis
    using S by (simp add: stack_xy_def n slice_def sp st)
qed

lemma split_data_rows:
  assumes "split_data chars B T f = Inr (train_x, train_y, val_x, val_y)"
  shows "\<exists>x y. stack_xy chars B T = Inr (x, y)
     \<and> map2 (@) (rows train_x) (rows val_x) = rows x
     \<and> map2 (@) (rows train_y) (rows val_y) = rows y"
proof -
  have z: "map2 (@) (map (take c) rs) (map (drop c) rs) = rs" for c and rs :: "'a list list"
    by (induction rs) simp_all
  from assms show ?thesis
    by (auto simp: split_data_def cols_upto_def cols_from_def Let_def z split: sum.splits)
qed

lemma target_stream:
  assumes "m \<le> length chars"
  shows "length (slice 1 (m + 1) chars) = (if m < length chars then m else m - 1)"
    and "j < length (slice 1 (m + 1) chars) \<Longrightarrow>
           j + 1 < length chars \<and> slice 1 (m + 1) chars ! j = chars ! (j + 1)"
proof -
  show "length (slice 1 (m + 1) chars) = (if m < length chars then m else m - 1)"
    using assms by (auto simp: length_slice)
  assume "j < length (slice 1 (m + 1) chars)"
  then have "j < min (m + 1) (length chars) - 1"
    by (simp add: length_slice)
  then have b: "1 + j < min (m + 1) (length chars)"
    by linarith
  then have "slice 1 (m + 1) chars ! j = chars ! (1 + j)"
    by (rule nth_slice)
  with b show "j + 1 < length chars \<and> slice 1 (m + 1) chars ! j = chars ! (j + 1)"
    by (simp add: add.commute)
qed

lemma stack_xy_shapes:
  assumes xy: "stack_xy chars B T = Inr (x, y)"
  defines "m \<equiv> length chars div (B * T) * (B * T)"
  defines "ys \<equiv> slice 1 (m + 1) chars"
  shows "0 < B" and "m \<le> length chars" and "B * ncols x = m" and "B * ncols y = length ys"
    and "length ys = (if m < length chars then m else m - 1)"
    and "\<forall>i<B. rows x ! i = slice (i * ncols x) ((i + 1) * ncols x) chars"
    and "\<forall>i<B. rows y ! i = slice (i * ncols y) ((i + 1) * ncols y) ys"
    and "length (rows x) = B" and "length (rows y) = B"
proof -
  note f = stack_xy_Inr[OF xy]
  show "0 < B" by (rule f(1))
  show le: "m \<le> length chars" by (simp add: m_def)
  show "B * ncols x = m" using f(3) by (simp add: m_def mult.left_commute)
  have "length ys mod B = 0" using f(4) by (simp add: ys_def m_def)
  moreover have "ncols y = length ys div B" using f(5) by (simp add: ys_def m_def)
  ultimately show "B * ncols y = length ys" by (metis mult_div_mod_eq add.right_neutral)
  show "length ys = (if m < length chars then m else m - 1)"
    unfolding ys_def by (rule target_stream(1)[OF le])
  show "\<forall>i<B. rows x ! i = slice (i * ncols x) ((i + 1) * ncols x) chars"
    using f(3) by simp
  show "\<forall>i<B. rows y ! i = slice (i * ncols y) ((i + 1) * ncols y) ys"
    using f(5) by (simp add: ys_def m_def)
  show "length (rows x) = B" "length (rows y) = B" using f(3,5) by simp_all
qed

lemma target_columns:
  assumes xy: "stack_xy chars B T = Inr (x, y)" and pos: "0 < ncols y"
  shows "ncols y = ncols x \<or> B = 1"
proof -
  define m where "m = length chars div (B * T) * (B * T)"
  define ys where "ys = slice 1 (m + 1) chars"
  note s = stack_xy_shapes[OF xy, folded m_def, folded ys_def]
  show ?thesis
  proof (cases "m < length chars")
    case True
    then have "B * ncols y = B * ncols x" using s(3,4,5) by simp
    then show ?thesis using s(1) by simp
  next
    case False
    then have l1: "B * ncols y = m - 1" using s(4,5) by simp
    have "0 < B * ncols y" using pos s(1) by simp
    then have mp: "0 < m" using l1 by linarith
    have "B dvd (m - 1)" using l1 by (metis dvd_triv_left)
    moreover have "B dvd m" using s(3) by (metis dvd_triv_left)
    ultimately have "B dvd (m - (m - 1))" by (metis dvd_diff_nat)
    moreover have "m - (m - 1) = 1" using mp by linarith
    ultimately have "B dvd 1" by simp
    then show ?thesis by simp
  qed
qed


lemma cols_slice_window:
  assumes wf: "wf_matrix m" and sh: "shape m = (R, C)" and ab: "a \<le> b" and bC: "b \<le> C"
  shows "shape (cols_slice a b m) = (R, b - a)"
    and "wf_matrix (cols_slice a b m)"
    and "i < R \<Longrightarrow> j < b - a \<Longrightarrow> entry (cols_slice a b m) i j = entry m i (a + j)"
proof -
  have R: "length (rows m) = R" and C: "ncols m = C" using sh by (simp_all add: shape_def)
  have len: "length r = C" if "r \<in> set (rows m)" for r
    using wf that C by (simp add: wf_matrix_def list_all_iff)
  show "shape (cols_slice a b m) = (R, b - a)"
    using R C ab bC by (simp add: shape_def cols_slice_def min_def)
  have "length (slice a b r) = b - a" if "r \<in> set (rows m)" for r
    using len[OF that] bC by (simp add: length_slice min_def)
  then show "wf_matrix (cols_slice a b m)"
    using C ab bC by (simp add: wf_matrix_def list_all_iff cols_slice_def min_def)
  assume i: "i < R" and j: "j < b - a"
  have "rows m ! i \<in> set (rows m)" using i R by simp
  then have "length (rows m ! i) = C" by (rule len)
  then have "a + j < min b (length (rows m ! i))" using j bC by simp
  then have "slice a b (rows m ! i) ! j = rows m ! i ! (a + j)" by (rule nth_slice)
  then show "entry (cols_slice a b m) i j = entry m i (a + j)"
    using i R by (simp add: entry_def cols_slice_def)
qed


subsection \<open>Dictionaries\<close>

lemma fold_update: "fold (\<lambda>(k, v) d. d(k \<mapsto> v)) kvs d = d ++ map_of (rev kvs)"
  by (induction kvs arbitrary: d) (auto simp: map_add_def fun_eq_iff split: option.splits)

lemma dict_of_Some:
  assumes "distinct (map fst kvs)"
  shows "(dict_of kvs k = Some v) = ((k, v) \<in> set kvs)"
proof -
  have "distinct (map fst (rev kvs))" using assms by (simp add: rev_map[symmetric])
  then have "(map_of (rev kvs) k = Some v) = ((k, v) \<in> set (rev kvs))"
    by (rule map_of_eq_Some_iff)
  then show ?thesis by (simp add: dict_of_def fold_update)
qed

lemma zip_upt_mem:
  "((i, c) \<in> set (zip [0..<length vs] vs)) = (i < length vs \<and> vs ! i = c)"
  "((c, i) \<in> set (zip vs [0..<length vs])) = (i < length vs \<and> vs ! i = c)"
proof -
  show a: "((i, c) \<in> set (zip [0..<length vs] vs)) = (i < length vs \<and> vs ! i = c)"
  proof
    assume "(i, c) \<in> set (zip [0..<length vs] vs)"
    then obtain k where k: "k < length vs" "[0..<length vs] ! k = i" "vs ! k = c"
      by (auto simp: set_zip)
    then have "k = i" by simp
    with k show "i < length vs \<and> vs ! i = c" by simp
  next
    assume r: "i < length vs \<and> vs ! i = c"
    then have "zip [0..<length vs] vs ! i = (i, c)" by simp
    moreover have "i < length (zip [0..<length vs] vs)" using r by simp
    ultimately show "(i, c) \<in> set (zip [0..<length vs] vs)" by (metis nth_mem)
  qed
  have "((c, i) \<in> set (zip vs [0..<length vs])) = ((i, c) \<in> set (zip [0..<length vs] vs))"
    by (subst zip_commute) auto
  with a show "((c, i) \<in> set (zip vs [0..<length vs])) = (i < length vs \<and> vs ! i = c)"
    by simp
qed

lemma int_to_vocab_Some:
  "(int_to_vocab vs i = Some c) = (i < length vs \<and> vs ! i = c)"
proof -
  have "distinct (map fst (enumerate_py vs))" by (simp add: enumerate_py_def)
  then have "(int_to_vocab vs i = Some c) = ((i, c) \<in> set (zip [0..<length vs] vs))"
    unfolding int_to_vocab_def by (simp add: dict_of_Some enumerate_py_def)
  also have "\<dots> = (i < length vs \<and> vs ! i = c)"
    by (rule zip_upt_mem)
  finally show ?thesis .
qed

lemma vocab_to_int_Some:
  assumes "distinct vs"
  shows "(vocab_to_int vs c = Some i) = (i < length vs \<and> vs ! i = c)"
proof -
  have z: "map (\<lambda>(i, c). (c, i)) (enumerate_py vs) = zip vs [0..<length vs]"
    unfolding enumerate_py_def by (rule zip_commute[symmetric])
  have "distinct (map fst (zip vs [0..<length vs]))" using assms by simp
  then have "(vocab_to_int vs c = Some i) = ((c, i) \<in> set (zip vs [0..<length vs]))"
    unfolding vocab_to_int_def z by (rule dict_of_Some)
  also have "\<dots> = (i < length vs \<and> vs ! i = c)"
    by (rule zip_upt_mem)
  finally show ?thesis .
qed


subsection \<open>In-place zeroing, \<open>argsort\<close> and the random choice\<close>

lemma length_zero_at: "length (zero_at idx p) = length p"
  unfolding zero_at_def by (induction idx arbitrary: p) simp_all

lemma nth_zero_at:
  "i < length p \<Longrightarrow> zero_at idx p ! i = (if i \<in> set idx then 0 else p ! i)"
  unfolding zero_at_def
proof (induction idx arbitrary: p)
  case Nil
  then show ?case by simp
next
  case (Cons a idx)
  have "fold (\<lambda>i q. q[i := 0]) idx (p[a := 0]) ! i = (if i \<in> set idx then 0 else p[a := 0] ! i)"
    using Cons.prems by (intro Cons.IH) simp
  then show ?case using Cons.prems by (auto simp: nth_list_update)
qed

lemma all_but_last_take: "1 \<le> n \<Longrightarrow> all_but_last n xs = take (length xs - n) xs"
  by (simp add: all_but_last_def clip_index_def) (metis nat_minus_as_int of_nat_diff nat_int nat_diff_distrib' of_nat_0_le_iff)

lemma is_argsort_length: "is_argsort p idx \<Longrightarrow> length idx = length p"
  unfolding is_argsort_def by (metis distinct_card card_atLeastLessThan diff_zero set_upt)

lemma is_argsort_split:
  assumes "is_argsort p idx" and "i < length p"
  shows "(i \<in> set (take m idx)) = (i \<notin> set (drop m idx))"
proof -
  have d: "distinct (take m idx @ drop m idx)" and s: "set (take m idx @ drop m idx) = set [0..<length p]"
    using assms(1) by (simp_all add: is_argsort_def)
  have "i \<in> set (take m idx) \<union> set (drop m idx)" using s assms(2) by (simp del: append_take_drop_id)
  moreover have "set (take m idx) \<inter> set (drop m idx) = {}" using d by (simp only: distinct_append)
  ultimately show ?thesis by blast
qed

lemma zeroed_entries:
  assumes a: "is_argsort p idx" and N: "1 \<le> N" and i: "i < length p"
  shows "zero_at (all_but_last N idx) p ! i =
           (if i \<in> set (drop (length p - N) idx) then p ! i else 0)"
  using nth_zero_at[OF i, of "all_but_last N idx"] is_argsort_split[OF a i, of "length p - N"]
  by (simp add: all_but_last_take[OF N] is_argsort_length[OF a])

lemma is_argsort_insertion: "is_argsort p (argsort_insertion p)"
  by (simp add: is_argsort_def argsort_insertion_def)

lemma all_but_last_in_range:
  assumes "is_argsort p idx"
  shows "\<not> list_ex (\<lambda>i. length p \<le> i) (all_but_last N idx)"
proof -
  have "set (all_but_last N idx) \<subseteq> set idx"
    unfolding all_but_last_def by (rule set_take_subset)
  moreover have "set idx = set [0..<length p]" using assms by (simp add: is_argsort_def)
  ultimately have "\<forall>i\<in>set (all_but_last N idx). i < length p" by auto
  then show ?thesis by (auto simp: list_ex_iff)
qed

lemma pick_top_n_vector:
  assumes "is_argsort (h preds) (argsort (h preds))" and "length (h preds) \<noteq> 1"
  shows "pick_top_n argsort u h preds V N =
     (random_choice V (renormalize (zero_at (all_but_last N (argsort (h preds))) (h preds))) u,
      h(preds := zero_at (all_but_last N (argsort (h preds))) (h preds)))"
  using all_but_last_in_range[OF assms(1), of N] assms(2)
  by (simp add: pick_top_n_def np_squeeze_def assign_zero_def Let_def)

lemma pick_top_n_scalar:
  assumes "length (h preds) = 1"
  shows "pick_top_n argsort u h preds V N = (Inl IndexError, h)"
  using assms by (simp add: pick_top_n_def np_squeeze_def assign_zero_def)

lemma pick_top_n_store:
  assumes N: "1 \<le> N" and a: "is_argsort (h preds) (argsort (h preds))"
  shows "snd (pick_top_n argsort u h preds V N) =
     h(preds := zero_at (all_but_last N (argsort (h preds))) (h preds))"
proof (cases "length (h preds) = 1")
  case True
  have "length (argsort (h preds)) = 1" using is_argsort_length[OF a] True by simp
  then have "all_but_last N (argsort (h preds)) = []"
    using N by (simp add: all_but_last_take)
  then have "zero_at (all_but_last N (argsort (h preds))) (h preds) = h preds"
    by (simp add: zero_at_def)
  then show ?thesis by (simp add: pick_top_n_scalar[where h = h and preds = preds, OF True])
next
  case False
  show ?thesis by (simp add: pick_top_n_vector[where h = h and preds = preds and argsort = argsort, OF a False])
qed

lemma sum_list_divide: "sum_list (map (\<lambda>v. v / s) z) = sum_list z / (s::rat)"
  by (induction z) (simp_all add: add_divide_distrib)

lemma sum_list_renormalize: "sum_list z \<noteq> 0 \<Longrightarrow> sum_list (renormalize z) = 1"
  by (simp add: renormalize_def sum_list_divide)

lemma nth_le_sum_list:
  "\<forall>v\<in>set z. (0::rat) \<le> v \<Longrightarrow> i < length z \<Longrightarrow> z ! i \<le> sum_list z"
proof (induction z arbitrary: i)
  case Nil
  then show ?case by simp
next
  case (Cons v z)
  have nn: "0 \<le> sum_list z" using Cons.prems(1) by (intro sum_list_nonneg) simp
  show ?case
  proof (cases i)
    case 0
    then show ?thesis using nn by simp
  next
    case (Suc k)
    then have "z ! k \<le> sum_list z" using Cons by simp
    then show ?thesis using Suc Cons.prems(1) by simp
  qed
qed

lemma cdf_search_positive:
  "\<forall>v\<in>set q. 0 \<le> v \<Longrightarrow> acc \<le> u \<Longrightarrow> u < acc + sum_list q \<Longrightarrow>
     cdf_search u acc q < length q \<and> 0 < q ! cdf_search u acc q"
proof (induction q arbitrary: acc)
  case Nil
  then show ?case by simp
next
  case (Cons v q)
  show ?case
  proof (cases "u < acc + v")
    case True
    then show ?thesis using Cons.prems(2) by simp
  next
    case False
    then have "acc + v \<le> u" by simp
    moreover have "u < (acc + v) + sum_list q" using Cons.prems(3) by (simp add: add.assoc)
    moreover have "\<forall>v\<in>set q. 0 \<le> v" using Cons.prems(1) by simp
    ultimately have "cdf_search u (acc + v) q < length q \<and> 0 < q ! cdf_search u (acc + v) q"
      by (intro Cons.IH)
    then show ?thesis using False by simp
  qed
qed

lemma distribution_has_mass:
  assumes "\<forall>v\<in>set p. (0::rat) \<le> v" and "sum_list p = 1"
  shows "\<exists>i<length p. 0 < p ! i"
proof (rule ccontr)
  assume "\<not> (\<exists>i<length p. 0 < p ! i)"
  then have "\<forall>v\<in>set p. v = 0" using assms(1) by (force simp: in_set_conv_nth)
  then have "sum_list p = 0" by (induction p) simp_all
  then show False using assms(2) by simp
qed

lemma argsort_nth_mono:
  assumes "is_argsort p idx" and "a \<le> b" and "b < length idx"
  shows "p ! (idx ! a) \<le> p ! (idx ! b)"
proof -
  have "sorted (map (\<lambda>i. p ! i) idx)" using assms(1) by (simp add: is_argsort_def)
  then have "map (\<lambda>i. p ! i) idx ! a \<le> map (\<lambda>i. p ! i) idx ! b"
    using assms(2,3) by (intro sorted_nth_mono) simp_all
  then show ?thesis using assms(2,3) by simp
qed

lemma top_dominates:
  assumes a: "is_argsort p idx" and i: "i \<in> set (drop m idx)" and j: "j \<in> set (take m idx)"
  shows "p ! j \<le> p ! i"
proof -
  from i obtain b where b: "b < length (drop m idx)" "drop m idx ! b = i"
    by (auto simp: in_set_conv_nth)
  from j obtain k where k: "k < length (take m idx)" "take m idx ! k = j"
    by (auto simp: in_set_conv_nth)
  have "m + b < length idx" using b(1) by simp
  moreover have "k \<le> m + b" using k(1) by simp
  ultimately have "p ! (idx ! k) \<le> p ! (idx ! (m + b))" using a by (intro argsort_nth_mono)
  moreover have "idx ! k = j" using k by simp
  moreover have "idx ! (m + b) = i" using b by simp
  ultimately show ?thesis by simp
qed

lemma rank_in_top:
  assumes a: "is_argsort p idx" and c: "c \<in> set (drop (length p - N) idx)"
  shows "card {j. j < length p \<and> p ! c < p ! j} < N"
proof -
  let ?V = "length p"
  have len: "length idx = ?V" by (rule is_argsort_length[OF a])
  from c obtain b where b: "b < length (drop (?V - N) idx)" "drop (?V - N) idx ! b = c"
    by (auto simp: in_set_conv_nth)
  define a0 where "a0 = ?V - N + b"
  have a0: "a0 < ?V" and ca: "idx ! a0 = c" using b len by (simp_all add: a0_def)
  have sub: "{j. j < ?V \<and> p ! c < p ! j} \<subseteq> (\<lambda>k. idx ! k) ` {a0<..<?V}"
  proof
    fix j assume "j \<in> {j. j < ?V \<and> p ! c < p ! j}"
    then have j: "j < ?V" "p ! c < p ! j" by simp_all
    have "j \<in> set idx" using a j(1) by (simp add: is_argsort_def)
    then obtain k where k: "k < ?V" "idx ! k = j" using len by (auto simp: in_set_conv_nth)
    have "a0 < k"
    proof (rule ccontr)
      assume "\<not> a0 < k"
      then have "k \<le> a0" by simp
      then have "p ! (idx ! k) \<le> p ! (idx ! a0)" using a a0 len by (intro argsort_nth_mono) simp_all
      then show False using k ca j(2) by simp
    qed
    then show "j \<in> (\<lambda>k. idx ! k) ` {a0<..<?V}" using k by auto
  qed
  have "card {j. j < ?V \<and> p ! c < p ! j} \<le> card ((\<lambda>k. idx ! k) ` {a0<..<?V})"
    using sub by (intro card_mono) simp_all
  also have "\<dots> \<le> card {a0<..<?V}" by (rule card_image_le) simp
  also have "\<dots> = ?V - a0 - 1" by simp
  also have "\<dots> < N" using b(1) len a0 by (simp add: a0_def)
  finally show ?thesis .
qed

subsection \<open>The loops of the sampler\<close>

lemma gen_loop_appends:
  "gen_loop w m n k c st acc = Inr s \<Longrightarrow> \<exists>t. s = acc @ t \<and> length t = n"
proof (induction n arbitrary: k c st acc)
  case 0
  then show ?case by simp
next
  case (Suc n)
  from Suc.prems obtain st' c' ch where
    r: "gen_loop w m n (Suc k) c' st' (acc @ [ch]) = Inr s"
    by (auto split: prod.splits sum.splits)
  from Suc.IH[OF r] obtain t where "s = (acc @ [ch]) @ t" "length t = n" by blast
  then have "s = acc @ (ch # t) \<and> length (ch # t) = Suc n" by simp
  then show ?case by blast
qed

lemma sample_ignores_prime:
  "sample w checkpoint n_samples lstm_size vocab_size prime1 =
   sample w checkpoint n_samples lstm_size vocab_size prime2"
  by (simp add: sample_def)

lemma sample_appends:
  assumes "sample w checkpoint n_samples lstm_size vocab_size prime_arg = Inr s"
  shows "\<exists>t. s = ''Far'' @ t \<and> length t = n_samples + 1"
proof -
  from assms obtain m c st ch where
    "gen_loop w m n_samples 1 c st (''Far'' @ [ch]) = Inr s"
    by (auto simp: sample_def Let_def split: sum.splits prod.splits option.splits)
  from gen_loop_appends[OF this] obtain t where "s = (''Far'' @ [ch]) @ t" "length t = n_samples"
    by blast
  then have "s = ''Far'' @ (ch # t) \<and> length (ch # t) = n_samples + 1" by simp
  then show ?thesis by blast
qed

subsection \<open>The end-to-end example\<close>

text \<open>
  C2.  The spec's end-to-end example: the corpus \<open>ABABABAB\<close> with the vocabulary
  \<open>A \<mapsto> 0\<close>, \<open>B \<mapsto> 1\<close>, \<open>batch_size = 2\<close>, \<open>num_steps = 2\<close>, \<open>split_frac = 1.0\<close>.
  The encoded corpus is \<open>[0,1,0,1,0,1,0,1]\<close> and \<open>n_batches = 2\<close>, but the code does
  not reach the first window: \<open>y = chars[1:9]\<close> has 7 entries, and
  \<^verbatim>\<open>np.split(y, 2)\<close> raises \<^verbatim>\<open>ValueError\<close>.
\<close>

theorem split_data_abab_raises:
  "encode (vocab_to_int ''AB'') ''ABABABAB'' = Inr [0, 1, 0, 1, 0, 1, 0, 1]
   \<and> n_batches_of (length ''ABABABAB'') 2 2 = 2
   \<and> split_data [0, 1, 0, 1, 0, 1, 0, 1 :: nat] 2 2 1 = Inl ValueError"
  by (simp add: vocab_to_int_def dict_of_def enumerate_py_def lookup_def n_batches_of_def
      split_data_def stack_xy_def np_split_def np_stack_def slice_def upt_rec)

subsection \<open>When \<open>split_data\<close> raises\<close>

text \<open>
  C3.  A corpus whose length is an exact multiple \<open>n * (batch_size * num_steps)\<close>,
  \<open>n \<ge> 1\<close>, has length at least \<open>batch_size * num_steps\<close>, yet for
  \<open>batch_size \<ge> 2\<close> the code raises \<^verbatim>\<open>ValueError\<close>: the target stream
  \<open>chars[1 : n*slice_size + 1]\<close> is one entry short and \<^verbatim>\<open>np.split\<close> cannot divide
  it into \<open>batch_size\<close> equal parts.  The final target is not dropped.
\<close>

theorem split_data_exact_multiple_raises:
  assumes "2 \<le> B" "0 < T" "0 < n" "length chars = n * (B * T)"
  shows "split_data chars B T f = Inl ValueError"
  by (simp add: split_data_def stack_xy_exact_multiple[OF assms])

theorem split_data_exact_multiple_witness:
  "(2::nat) \<le> 3 \<and> (0::nat) < 2 \<and> (0::nat) < 2 \<and> length [0, 1, 2, 3, 4, 5, 6, 7, 8, 9, 10, 11 :: nat] = 2 * (3 * 2)
   \<and> split_data [0, 1, 2, 3, 4, 5, 6, 7, 8, 9, 10, 11 :: nat] 3 2 (9 / 10) = Inl ValueError"
  using split_data_exact_multiple_raises [of 3 2 2 "[0, 1, 2, 3, 4, 5, 6, 7, 8, 9, 10, 11 :: nat]" "9 / 10"]
  by simp

text \<open>
  C5, as the claim states it: a corpus of 3 characters with \<open>batch_size = 2\<close> and
  \<open>num_steps = 2\<close> has \<open>n_batches = 0\<close>, and \<open>split_data\<close> raises nothing: it returns
  four matrices of shape \<open>(2, 0)\<close>.
\<close>

theorem split_data_short_counterexample:
  "n_batches_of (length [0, 1, 0 :: nat]) 2 2 = 0 \<and>
   split_data [0, 1, 0 :: nat] 2 2 (9 / 10) =
     Inr (\<lparr>ncols = 0, rows = [[], []]\<rparr>, \<lparr>ncols = 0, rows = [[], []]\<rparr>,
          \<lparr>ncols = 0, rows = [[], []]\<rparr>, \<lparr>ncols = 0, rows = [[], []]\<rparr>)"
  by (simp add: split_data_def stack_xy_def np_split_def np_stack_def slice_def upt_rec
      n_batches_of_def py_int_def cols_upto_def cols_from_def clip_index_def)

text \<open>
  C5, amended.  Whenever the corpus is shorter than one \<open>batch_size * num_steps\<close>
  slice, \<open>split_data\<close> returns, without an error, four empty matrices of shape
  \<open>(batch_size, 0)\<close>.  Here \<open>split_frac\<close> is a finite number; the product
  \<open>n_batches * split_frac\<close> is then exactly zero, in floating point as well.
\<close>

theorem split_data_short_corpus:
  assumes "length chars < B * T"
  shows "split_data chars B T f =
     Inr (\<lparr>ncols = 0, rows = replicate B []\<rparr>, \<lparr>ncols = 0, rows = replicate B []\<rparr>,
          \<lparr>ncols = 0, rows = replicate B []\<rparr>, \<lparr>ncols = 0, rows = replicate B []\<rparr>)"
  using assms
  by (simp add: split_data_def stack_xy_short n_batches_of_def py_int_def cols_upto_def cols_from_def clip_index_def)

theorem split_data_short_corpus_witness:
  "length [0, 1, 0 :: nat] < 2 * 2 \<and> split_data [0, 1, 0 :: nat] 2 2 (9 / 10) =
     Inr (\<lparr>ncols = 0, rows = replicate 2 []\<rparr>, \<lparr>ncols = 0, rows = replicate 2 []\<rparr>,
          \<lparr>ncols = 0, rows = replicate 2 []\<rparr>, \<lparr>ncols = 0, rows = replicate 2 []\<rparr>)"
  using split_data_short_corpus [of "[0, 1, 0 :: nat]" 2 2 "9 / 10"] by simp

subsection \<open>The batch matrix\<close>

text \<open>
  C8.  If \<open>split_data\<close> succeeds, then the batch matrix \<open>x\<close> it has built has shape
  \<open>(batch_size, n_batches * num_steps)\<close>, its rows concatenated in row order are the
  first \<open>n_batches * slice_size\<close> characters of the corpus, and row \<open>i\<close> holds the
  corpus positions from \<open>i * shard_len\<close> up to \<open>(i + 1) * shard_len\<close>, where
  \<open>shard_len\<close> is the column count of \<open>x\<close>.  (By \<open>split_data_rows\<close>, row \<open>i\<close> of
  \<open>x\<close> is row \<open>i\<close> of \<open>train_x\<close> followed by row \<open>i\<close> of \<open>val_x\<close>.)
\<close>

theorem rows_are_corpus_shards:
  assumes "split_data chars B T f = Inr r"
  shows "\<exists>x y. stack_xy chars B T = Inr (x, y)
     \<and> shape x = (B, n_batches_of (length chars) B T * T)
     \<and> concat (rows x) = take (n_batches_of (length chars) B T * (B * T)) chars
     \<and> (\<forall>i<B. rows x ! i = slice (i * ncols x) ((i + 1) * ncols x) chars)"
proof -
  let ?n = "n_batches_of (length chars) B T"
  from assms obtain x y where xy: "stack_xy chars B T = Inr (x, y)"
    using split_data_Inr_stack by blast
  have x: "x = \<lparr>ncols = ?n * T, rows = map (\<lambda>i. slice (i * (?n * T)) ((i + 1) * (?n * T)) chars) [0..<B]\<rparr>"
    using stack_xy_Inr(3)[OF xy] by (simp add: n_batches_of_def)
  have "concat (rows x) = take (B * (?n * T)) chars"
    by (simp only: x matrix.simps concat_slices)
  then have "concat (rows x) = take (?n * (B * T)) chars"
    by (simp add: mult.left_commute)
  moreover have "shape x = (B, ?n * T)" by (simp add: x shape_def)
  moreover have "\<forall>i<B. rows x ! i = slice (i * ncols x) ((i + 1) * ncols x) chars"
    by (simp add: x)
  ultimately show ?thesis using xy by blast
qed

theorem rows_are_corpus_shards_witness:
  "split_data [10, 11, 12, 13, 14, 15, 16, 17, 18 :: nat] 2 2 (1 / 2) =
     Inr (\<lparr>ncols = 2, rows = [[10, 11], [14, 15]]\<rparr>, \<lparr>ncols = 2, rows = [[11, 12], [15, 16]]\<rparr>,
          \<lparr>ncols = 2, rows = [[12, 13], [16, 17]]\<rparr>, \<lparr>ncols = 2, rows = [[13, 14], [17, 18]]\<rparr>)
   \<and> (\<exists>x y. stack_xy [10, 11, 12, 13, 14, 15, 16, 17, 18 :: nat] 2 2 = Inr (x, y)
     \<and> shape x = (2, n_batches_of (length [10, 11, 12, 13, 14, 15, 16, 17, 18 :: nat]) 2 2 * 2)
     \<and> concat (rows x) =
         take (n_batches_of (length [10, 11, 12, 13, 14, 15, 16, 17, 18 :: nat]) 2 2 * (2 * 2))
           [10, 11, 12, 13, 14, 15, 16, 17, 18]
     \<and> (\<forall>i<2. rows x ! i = slice (i * ncols x) ((i + 1) * ncols x) [10, 11, 12, 13, 14, 15, 16, 17, 18]))"
proof -
  have h: "split_data [10, 11, 12, 13, 14, 15, 16, 17, 18 :: nat] 2 2 (1 / 2) =
     Inr (\<lparr>ncols = 2, rows = [[10, 11], [14, 15]]\<rparr>, \<lparr>ncols = 2, rows = [[11, 12], [15, 16]]\<rparr>,
          \<lparr>ncols = 2, rows = [[12, 13], [16, 17]]\<rparr>, \<lparr>ncols = 2, rows = [[13, 14], [17, 18]]\<rparr>)"
    by (simp add: split_data_def stack_xy_def np_split_def np_stack_def slice_def upt_rec
        n_batches_of_def py_int_def cols_upto_def cols_from_def clip_index_def)
  show ?thesis
    using h rows_are_corpus_shards [OF h] by (rule conjI)
qed

subsection \<open>The target matrix\<close>

text \<open>
  What holds whenever \<open>split_data\<close> succeeds.  The target matrix \<open>y\<close> has the rows of
  the batch matrix \<open>x\<close>; it has the columns of \<open>x\<close> when the corpus is longer than
  \<open>n_batches * slice_size\<close> and one column less when it is exactly that long, which
  for a non-empty \<open>x\<close> happens for \<open>batch_size = 1\<close> only.  For every index \<open>(i, j)\<close>
  of \<open>y\<close> the entry \<open>x[i, j]\<close> is the character at corpus position
  \<open>i * shard_len + j\<close>, where \<open>shard_len\<close> is the column count of \<open>x\<close>, and \<open>y[i, j]\<close> is
  the character at the next corpus position, which exists.  At the last column of a
  row \<open>i\<close> that has a successor, the target is the first entry of row \<open>i + 1\<close> of \<open>x\<close>.
\<close>

lemma target_is_next_character:
  assumes ok: "split_data chars B T f = Inr r"
  shows "\<exists>x y. stack_xy chars B T = Inr (x, y)
     \<and> length (rows y) = B \<and> length (rows x) = B \<and> ncols y \<le> ncols x
     \<and> ncols y = (if n_batches_of (length chars) B T * (B * T) < length chars
                   then ncols x else ncols x - 1)
     \<and> (2 \<le> B \<longrightarrow> ncols y = ncols x)
     \<and> (\<forall>i j. i < B \<longrightarrow> j < ncols y \<longrightarrow>
           i * ncols x + j + 1 < length chars
         \<and> entry x i j = chars ! (i * ncols x + j)
         \<and> entry y i j = chars ! (i * ncols x + j + 1))
     \<and> (\<forall>i. i + 1 < B \<longrightarrow> 0 < ncols y \<longrightarrow> entry y i (ncols y - 1) = entry x (i + 1) 0)"
proof -
  define m where "m = length chars div (B * T) * (B * T)"
  define ys where "ys = slice 1 (m + 1) chars"
  from ok obtain x y where xy: "stack_xy chars B T = Inr (x, y)"
    using split_data_Inr_stack by blast
  note s = stack_xy_shapes[OF xy, folded m_def, folded ys_def]
  define c where "c = ncols x"
  define k where "k = ncols y"
  have Bc: "B * c = m" and Bk: "B * k = length ys" using s(3,4) by (simp_all add: c_def k_def)
  have rx: "rows x ! i = slice (i * c) ((i + 1) * c) chars" if "i < B" for i
    using that s(6) by (simp add: c_def)
  have ry: "rows y ! i = slice (i * k) ((i + 1) * k) ys" if "i < B" for i
    using that s(7) by (simp add: k_def)
  have lenle: "length ys \<le> m" using s(5) by (simp split: if_splits)
  have kc: "k \<le> c"
  proof -
    have "B * k \<le> B * c" using lenle Bk Bc by linarith
    then show ?thesis using s(1) by simp
  qed
  have shift: "i * k = i * c" if "i < B" "0 < k" for i
    using target_columns[OF xy] that by (auto simp: c_def k_def)
  have main: "i * c + j + 1 < length chars
         \<and> entry x i j = chars ! (i * c + j)
         \<and> entry y i j = chars ! (i * c + j + 1)" if i: "i < B" and j: "j < k" for i j
  proof -
    have k0: "0 < k" using j by simp
    have "(i + 1) * k \<le> B * k" using i by (intro mult_le_mono1) simp
    then have up: "(i + 1) * k \<le> length ys" using Bk by simp
    have ij: "i * k + j < (i + 1) * k" using j by simp
    then have ijl: "i * k + j < length ys" using up by linarith
    have "i * k + j < min ((i + 1) * k) (length ys)" using ij ijl by simp
    then have "slice (i * k) ((i + 1) * k) ys ! j = ys ! (i * k + j)"
      by (rule nth_slice)
    then have "entry y i j = ys ! (i * k + j)"
      using ry[OF i] by (simp add: entry_def)
    moreover have nx: "i * k + j + 1 < length chars \<and> ys ! (i * k + j) = chars ! (i * k + j + 1)"
      using target_stream(2)[OF s(2), of "i * k + j"] ijl unfolding ys_def by blast
    ultimately have ey: "entry y i j = chars ! (i * c + j + 1)" using shift[OF i k0] by simp
    have bound: "i * c + j + 1 < length chars"
      using nx shift[OF i k0] by simp
    have "(i + 1) * c \<le> B * c" using i by (intro mult_le_mono1) simp
    then have upx: "(i + 1) * c \<le> length chars" using Bc s(2) by linarith
    have "i * c + j < (i + 1) * c" using j kc by simp
    then have "i * c + j < min ((i + 1) * c) (length chars)" using upx by simp
    then have "slice (i * c) ((i + 1) * c) chars ! j = chars ! (i * c + j)"
      by (rule nth_slice)
    then have "entry x i j = chars ! (i * c + j)"
      using rx[OF i] by (simp add: entry_def)
    with ey bound show ?thesis by simp
  qed
  have wrap: "entry y i (k - 1) = entry x (i + 1) 0" if i: "i + 1 < B" and k0: "0 < k" for i
  proof -
    have B2: "B \<noteq> 1" using i by simp
    then have eq: "k = c" using target_columns[OF xy] k0 by (simp add: c_def k_def)
    have i': "i < B" using i by simp
    have "entry y i (k - 1) = chars ! (i * c + (k - 1) + 1)"
      using main[OF i', of "k - 1"] k0 by simp
    also have "i * c + (k - 1) + 1 = (i + 1) * c + 0" using k0 eq by simp
    also have "chars ! ((i + 1) * c + 0) = entry x (i + 1) 0"
      using main[OF i k0] by simp
    finally show ?thesis .
  qed
  have or: "k = c \<or> (B = 1 \<and> k = c - 1)"
  proof (cases "m < length chars")
    case True
    then have "B * k = B * c" using Bk Bc s(5) by simp
    then show ?thesis using s(1) by simp
  next
    case False
    then have e: "B * k = B * c - 1" using Bk Bc s(5) by simp
    show ?thesis
    proof (cases "c = 0")
      case True
      then have "B * k = 0" using e by simp
      then show ?thesis using s(1) True by simp
    next
      case False
      then have "0 < B * c" using s(1) by simp
      then have d: "B * c - B * k = 1" using e by linarith
      have "B dvd B * c - B * k" by (intro dvd_diff_nat) simp_all
      then have "B = 1" using d by simp
      then show ?thesis using e by simp
    qed
  qed
  have count: "k = (if m < length chars then c else c - 1)"
  proof (cases "m < length chars")
    case True
    then have "B * k = B * c" using Bk Bc s(5) by simp
    then show ?thesis using s(1) True by simp
  next
    case False
    have "k = c - 1"
    proof (cases "c = 0")
      case True
      then show ?thesis using kc by simp
    next
      case c0: False
      have e: "B * k = B * c - 1" using False Bk Bc s(5) by simp
      have "0 < B * c" using s(1) c0 by simp
      then have "B * k \<noteq> B * c" using e by linarith
      then have "k \<noteq> c" by auto
      then show ?thesis using or by simp
    qed
    then show ?thesis using False by simp
  qed
  have same: "2 \<le> B \<longrightarrow> k = c" using or by auto
  have mm: "n_batches_of (length chars) B T * (B * T) = m"
    by (simp add: n_batches_of_def m_def)
  have "length (rows y) = B" "length (rows x) = B" using s(8,9) by simp_all
  with xy kc main wrap count same show ?thesis unfolding c_def k_def mm by blast
qed


subsection \<open>The batch iterator\<close>

text \<open>
  C6.  For a non-empty family \<open>arrs\<close> of matrices of one shape \<open>(R, C)\<close> and a window
  length \<open>T > 0\<close>, \<open>get_batch\<close> yields exactly \<open>C div T\<close> tuples and raises nothing.
  The \<open>b\<close>-th tuple has one matrix per input matrix, the slice of its columns from
  \<open>b * T\<close> up to \<open>(b + 1) * T\<close>; that slice has the full shape \<open>(R, T)\<close>, and its entry
  \<open>(i, j)\<close> is the entry \<open>(i, b * T + j)\<close> of the input.  Column offsets increase with
  \<open>b\<close>, and every column read lies below \<open>(C div T) * T\<close>: the \<open>C mod T\<close> remaining
  columns are in no window.
\<close>

theorem get_batch_full_windows:
  assumes ne: "arrs \<noteq> []" and T: "0 < T"
    and eq: "\<forall>m\<in>set arrs. wf_matrix m \<and> shape m = (R, C)"
  shows "\<exists>ws. get_batch arrs T = Inr ws \<and> length ws = C div T
     \<and> (\<forall>b<C div T. length (ws ! b) = length arrs
          \<and> (\<forall>k<length arrs.
                ws ! b ! k = cols_slice (b * T) ((b + 1) * T) (arrs ! k)
              \<and> shape (ws ! b ! k) = (R, T)
              \<and> wf_matrix (ws ! b ! k)
              \<and> (\<forall>i<R. \<forall>j<T. b * T + j < C div T * T
                    \<and> entry (ws ! b ! k) i j = entry (arrs ! k) i (b * T + j))))"
proof -
  let ?ws = "map (\<lambda>b. map (cols_slice (b * T) ((b + 1) * T)) arrs) [0..<C div T]"
  obtain a0 rest where a: "arrs = a0 # rest" using ne by (cases arrs) auto
  then have "shape a0 = (R, C)" using eq by simp
  then have gb: "get_batch arrs T = Inr ?ws"
    using a T by (simp add: get_batch_def del: upt_Suc)
  have win: "shape (?ws ! b ! k) = (R, T) \<and> wf_matrix (?ws ! b ! k)
      \<and> (\<forall>i<R. \<forall>j<T. b * T + j < C div T * T
            \<and> entry (?ws ! b ! k) i j = entry (arrs ! k) i (b * T + j))"
    if b: "b < C div T" and k: "k < length arrs" for b k
  proof -
    have m: "wf_matrix (arrs ! k)" "shape (arrs ! k) = (R, C)" using eq k by simp_all
    have up: "(b + 1) * T \<le> C div T * T" using b by (intro mult_le_mono1) simp
    have "C div T * T \<le> C" by (rule div_times_less_eq_dividend)
    with up have upC: "(b + 1) * T \<le> C" by (rule le_trans)
    have lo: "b * T \<le> (b + 1) * T" by simp
    have w: "(b + 1) * T - b * T = T" by simp
    note cw = cols_slice_window[OF m lo upC, unfolded w]
    have sel: "?ws ! b ! k = cols_slice (b * T) ((b + 1) * T) (arrs ! k)"
      using b k by simp
    have "b * T + j < C div T * T" if "j < T" for j
      using that up by simp
    then show ?thesis using cw sel by simp
  qed
  have "\<forall>b<C div T. length (?ws ! b) = length arrs
          \<and> (\<forall>k<length arrs.
                ?ws ! b ! k = cols_slice (b * T) ((b + 1) * T) (arrs ! k)
              \<and> shape (?ws ! b ! k) = (R, T)
              \<and> wf_matrix (?ws ! b ! k)
              \<and> (\<forall>i<R. \<forall>j<T. b * T + j < C div T * T
                    \<and> entry (?ws ! b ! k) i j = entry (arrs ! k) i (b * T + j)))"
    using win by simp
  moreover have "length ?ws = C div T" by simp
  ultimately show ?thesis using gb by blast
qed

theorem get_batch_full_windows_witness:
  "([\<lparr>ncols = 5, rows = [[0, 1, 2, 3, 4 :: nat], [5, 6, 7, 8, 9]]\<rparr>,
     \<lparr>ncols = 5, rows = [[1, 2, 3, 4, 5], [6, 7, 8, 9, 0]]\<rparr>] \<noteq> []
    \<and> (0::nat) < 2
    \<and> wf_matrix \<lparr>ncols = 5, rows = [[0, 1, 2, 3, 4 :: nat], [5, 6, 7, 8, 9]]\<rparr>
    \<and> shape \<lparr>ncols = 5, rows = [[0, 1, 2, 3, 4 :: nat], [5, 6, 7, 8, 9]]\<rparr> = (2, 5)
    \<and> wf_matrix \<lparr>ncols = 5, rows = [[1, 2, 3, 4, 5 :: nat], [6, 7, 8, 9, 0]]\<rparr>
    \<and> shape \<lparr>ncols = 5, rows = [[1, 2, 3, 4, 5 :: nat], [6, 7, 8, 9, 0]]\<rparr> = (2, 5))
   \<and> get_batch [\<lparr>ncols = 5, rows = [[0, 1, 2, 3, 4 :: nat], [5, 6, 7, 8, 9]]\<rparr>,
                \<lparr>ncols = 5, rows = [[1, 2, 3, 4, 5], [6, 7, 8, 9, 0]]\<rparr>] 2 =
       Inr [[\<lparr>ncols = 2, rows = [[0, 1], [5, 6]]\<rparr>, \<lparr>ncols = 2, rows = [[1, 2], [6, 7]]\<rparr>],
            [\<lparr>ncols = 2, rows = [[2, 3], [7, 8]]\<rparr>, \<lparr>ncols = 2, rows = [[3, 4], [8, 9]]\<rparr>]]
   \<and> (\<exists>ws. get_batch [\<lparr>ncols = 5, rows = [[0, 1, 2, 3, 4 :: nat], [5, 6, 7, 8, 9]]\<rparr>,
                \<lparr>ncols = 5, rows = [[1, 2, 3, 4, 5], [6, 7, 8, 9, 0]]\<rparr>] 2 = Inr ws
        \<and> length ws = 5 div 2)"
proof -
  let ?arrs = "[\<lparr>ncols = 5, rows = [[0, 1, 2, 3, 4 :: nat], [5, 6, 7, 8, 9]]\<rparr>,
                \<lparr>ncols = 5, rows = [[1, 2, 3, 4, 5], [6, 7, 8, 9, 0]]\<rparr>]"
  have h1: "?arrs \<noteq> []" by simp
  have h2: "(0::nat) < 2" by simp
  have h3: "\<forall>m\<in>set ?arrs. wf_matrix m \<and> shape m = (2, 5)"
    by (simp add: wf_matrix_def shape_def)
  have ev: "get_batch ?arrs 2 =
       Inr [[\<lparr>ncols = 2, rows = [[0, 1], [5, 6]]\<rparr>, \<lparr>ncols = 2, rows = [[1, 2], [6, 7]]\<rparr>],
            [\<lparr>ncols = 2, rows = [[2, 3], [7, 8]]\<rparr>, \<lparr>ncols = 2, rows = [[3, 4], [8, 9]]\<rparr>]]"
    by (simp add: get_batch_def shape_def cols_slice_def slice_def upt_rec)
  from get_batch_full_windows [OF h1 h2 h3]
  have "\<exists>ws. get_batch ?arrs 2 = Inr ws \<and> length ws = 5 div 2" by blast
  moreover have "wf_matrix \<lparr>ncols = 5, rows = [[0, 1, 2, 3, 4 :: nat], [5, 6, 7, 8, 9]]\<rparr>"
    "shape \<lparr>ncols = 5, rows = [[0, 1, 2, 3, 4 :: nat], [5, 6, 7, 8, 9]]\<rparr> = (2, 5)"
    "wf_matrix \<lparr>ncols = 5, rows = [[1, 2, 3, 4, 5 :: nat], [6, 7, 8, 9, 0]]\<rparr>"
    "shape \<lparr>ncols = 5, rows = [[1, 2, 3, 4, 5 :: nat], [6, 7, 8, 9, 0]]\<rparr> = (2, 5)"
    using h3 by simp_all
  ultimately show ?thesis using h1 h2 ev by blast
qed

subsection \<open>The vocabulary\<close>

text \<open>
  C9.  For every text and every order \<open>vs\<close> in which Python enumerates the set of
  its characters, \<open>vocab_to_int\<close> is defined exactly on the distinct characters of
  the text and takes exactly the codes \<open>0, \<dots>, V - 1\<close>, where \<open>V\<close> is the number
  of distinct characters; \<open>int_to_vocab\<close> is defined exactly on these codes and
  takes exactly these characters; and each is the inverse of the other:
  \<open>vocab_to_int\<close> maps \<open>c\<close> to \<open>i\<close> if and only if \<open>int_to_vocab\<close> maps \<open>i\<close> to \<open>c\<close>.
\<close>

theorem vocabulary_bijection:
  assumes "enumerates vs text"
  shows "dom (vocab_to_int vs) = set text
     \<and> ran (vocab_to_int vs) = {0..<card (set text)}
     \<and> dom (int_to_vocab vs) = {0..<card (set text)}
     \<and> ran (int_to_vocab vs) = set text
     \<and> (\<forall>c i. (vocab_to_int vs c = Some i) = (int_to_vocab vs i = Some c))"
proof -
  from assms have d: "distinct vs" and s: "set vs = set text"
    by (simp_all add: enumerates_def)
  have V: "card (set text) = length vs" using d s by (metis distinct_card)
  note f = vocab_to_int_Some[OF d] and g = int_to_vocab_Some
  have "dom (vocab_to_int vs) = set vs"
    by (auto simp: dom_def f in_set_conv_nth)
  moreover have "ran (vocab_to_int vs) = {0..<length vs}"
    by (auto simp: ran_def f)
  moreover have "dom (int_to_vocab vs) = {0..<length vs}"
    by (auto simp: dom_def g)
  moreover have "ran (int_to_vocab vs) = set vs"
    by (auto simp: ran_def g in_set_conv_nth)
  moreover have "\<forall>c i. (vocab_to_int vs c = Some i) = (int_to_vocab vs i = Some c)"
    by (simp add: f g)
  ultimately show ?thesis by (simp add: V s)
qed

theorem vocabulary_bijection_witness:
  "enumerates ''ba'' ''abba''
   \<and> dom (vocab_to_int ''ba'') = set ''abba''
   \<and> ran (vocab_to_int ''ba'') = {0..<card (set ''abba'')}
   \<and> dom (int_to_vocab ''ba'') = {0..<card (set ''abba'')}
   \<and> ran (int_to_vocab ''ba'') = set ''abba''
   \<and> (\<forall>c i. (vocab_to_int ''ba'' c = Some i) = (int_to_vocab ''ba'' i = Some c))"
proof -
  have h: "enumerates ''ba'' ''abba''"
    by (auto simp: enumerates_def)
  show ?thesis using h vocabulary_bijection [OF h] by (rule conjI)
qed

subsection \<open>Top-N sampling\<close>

text \<open>
  C7, as the claim states it: \<open>[1]\<close> is a probability distribution over one code
  and \<open>top_n = 1\<close>, yet \<open>pick_top_n\<close> returns no index.  The squeezed view of the
  \<open>(1, 1)\<close> array has no dimension and the indexed assignment raises \<^verbatim>\<open>IndexError\<close>.
\<close>

theorem pick_top_n_one_symbol_counterexample:
  "length [1 :: rat] = 1 \<and> list_all (\<lambda>v. 0 \<le> v) [1 :: rat] \<and> sum_list [1 :: rat] = 1
   \<and> (1::nat) \<le> 1
   \<and> is_argsort [1] (argsort_insertion [1])
   \<and> fst (pick_top_n argsort_insertion (1 / 2) (\<lambda>_. [1]) 0 1 1) = Inl IndexError"
  by (simp add: is_argsort_insertion pick_top_n_def np_squeeze_def assign_zero_def)

text \<open>
  C7, amended.  In exact arithmetic: let \<open>p\<close> be a probability distribution over
  \<open>V \<ge> 2\<close> codes (non-negative entries that sum to 1), stored at \<open>preds\<close>, let \<open>N \<ge> 1\<close>, let \<open>argsort\<close> return an admissible
  ascending order of \<open>p\<close>, and let the uniform draw \<open>u\<close> lie in \<open>[0, 1)\<close>.  Then
  \<open>pick_top_n\<close> returns a code \<open>c\<close> without an error, and, with \<open>top\<close> the last \<open>N\<close>
  indices of the order:
  \<^item> the array left at \<open>preds\<close> keeps \<open>p\<close> on \<open>top\<close> and is zero elsewhere; \<open>top\<close> has
    \<open>min N V\<close> indices and every entry in \<open>top\<close> is at least every entry outside it;
  \<^item> the array handed to \<^verbatim>\<open>np.random.choice\<close> is the renormalised one: it is
    non-negative and sums to 1;
  \<^item> \<open>c\<close> has non-zero original probability, lies in \<open>top\<close>, and fewer than \<open>N\<close> codes
    have a strictly larger probability;
  \<^item> for \<open>N \<ge> V\<close> the renormalised array is \<open>p\<close> itself.
\<close>

theorem pick_top_n_samples_top_n:
  assumes len: "length p = V" and V2: "2 \<le> V"
    and nn: "\<forall>v\<in>set p. 0 \<le> v" and one: "sum_list p = 1"
    and N: "1 \<le> N" and a: "is_argsort p (argsort p)"
    and u: "0 \<le> u" "u < 1" and hp: "h preds = p"
  shows "\<exists>c z. pick_top_n argsort u h preds V N = (Inr c, h(preds := z))
     \<and> length z = V
     \<and> (\<forall>i<V. z ! i = (if i \<in> set (drop (V - N) (argsort p)) then p ! i else 0))
     \<and> card (set (drop (V - N) (argsort p))) = min N V
     \<and> (\<forall>i\<in>set (drop (V - N) (argsort p)). \<forall>j<V.
           j \<notin> set (drop (V - N) (argsort p)) \<longrightarrow> p ! j \<le> p ! i)
     \<and> (\<forall>v\<in>set (renormalize z). 0 \<le> v) \<and> sum_list (renormalize z) = 1
     \<and> random_choice V (renormalize z) u = Inr c
     \<and> c < V \<and> 0 < p ! c \<and> c \<in> set (drop (V - N) (argsort p))
     \<and> card {j. j < V \<and> p ! c < p ! j} < N
     \<and> (V \<le> N \<longrightarrow> renormalize z = p)"
proof -
  define idx where "idx = argsort p"
  define top where "top = set (drop (V - N) idx)"
  define z where "z = zero_at (all_but_last N idx) p"
  have a': "is_argsort p idx" using a by (simp add: idx_def)
  have li: "length idx = V" using is_argsort_length[OF a'] len by simp
  have lz: "length z = V" by (simp add: z_def length_zero_at len)
  have zi: "z ! i = (if i \<in> top then p ! i else 0)" if "i < V" for i
    using zeroed_entries[OF a' N, of i] that len by (simp add: z_def top_def)
  have "length (h preds) \<noteq> 1" using len V2 hp by simp
  moreover have "is_argsort (h preds) (argsort (h preds))" using a hp by simp
  ultimately have pk: "pick_top_n argsort u h preds V N = (random_choice V (renormalize z) u, h(preds := z))"
    using pick_top_n_vector[of h preds argsort u V N] by (simp add: hp z_def idx_def)
  have znn: "\<forall>v\<in>set z. 0 \<le> v"
  proof
    fix v assume "v \<in> set z"
    then obtain i where i: "i < V" "z ! i = v" using lz by (auto simp: in_set_conv_nth)
    have "0 \<le> p ! i" using nn i(1) len by simp
    then show "0 \<le> v" using zi[OF i(1)] i(2) by (simp split: if_splits)
  qed
  \<comment> \<open>the largest entry is kept and is positive\<close>
  obtain i0 where i0: "i0 < V" "0 < p ! i0"
    using distribution_has_mass[OF nn one] len by blast
  have Vpos: "0 < V" using i0 by simp
  define l where "l = idx ! (V - 1)"
  have "i0 \<in> set idx" using a' i0(1) len by (simp add: is_argsort_def)
  then obtain k where k: "k < V" "idx ! k = i0" using li by (auto simp: in_set_conv_nth)
  have "p ! (idx ! k) \<le> p ! (idx ! (V - 1))"
    using a' k(1) li Vpos by (intro argsort_nth_mono) simp_all
  then have pl: "0 < p ! l" using i0(2) k(2) by (simp add: l_def)
  have "drop (V - N) idx ! (V - 1 - (V - N)) = idx ! (V - 1)"
    using Vpos N li by simp
  moreover have "V - 1 - (V - N) < length (drop (V - N) idx)" using Vpos N li by simp
  ultimately have ltop: "l \<in> top" unfolding top_def l_def by (metis nth_mem)
  have "l \<in> set idx" using ltop by (auto simp: top_def dest: in_set_dropD)
  then have lV: "l < V" using a' len by (simp add: is_argsort_def)
  have "z ! l \<le> sum_list z" using znn lV lz by (intro nth_le_sum_list) simp_all
  then have spos: "0 < sum_list z" using zi[OF lV] ltop pl by simp
  \<comment> \<open>the renormalised distribution\<close>
  have rsum: "sum_list (renormalize z) = 1" using spos by (intro sum_list_renormalize) simp
  have rnn: "\<forall>v\<in>set (renormalize z). 0 \<le> v"
    using znn spos by (auto simp: renormalize_def)
  have rlen: "length (renormalize z) = V" by (simp add: renormalize_def lz)
  define c where "c = cdf_search u 0 (renormalize z)"
  have rc: "random_choice V (renormalize z) u = Inr c"
    using Vpos rlen rnn rsum by (auto simp: random_choice_def list_ex_iff c_def)
  have "c < length (renormalize z) \<and> 0 < renormalize z ! c"
    unfolding c_def using rnn u by (intro cdf_search_positive) (simp_all add: rsum)
  then have cV: "c < V" and rpos: "0 < renormalize z ! c" using rlen by simp_all
  have "0 < z ! c / sum_list z" using rpos cV lz by (simp add: renormalize_def)
  then have zc: "0 < z ! c" using spos by (simp add: zero_less_divide_iff)
  then have ctop: "c \<in> top" and pc: "0 < p ! c"
    using zi[OF cV] by (simp_all split: if_splits)
  have rank: "card {j. j < V \<and> p ! c < p ! j} < N"
    using rank_in_top[OF a', of c N] ctop len by (simp add: top_def)
  have ctopc: "card top = min N V"
  proof -
    have "distinct (drop (V - N) idx)" using a' by (simp add: is_argsort_def)
    then have "card top = length (drop (V - N) idx)" unfolding top_def by (rule distinct_card)
    then show ?thesis using li by simp
  qed
  have dom: "\<forall>i\<in>top. \<forall>j<V. j \<notin> top \<longrightarrow> p ! j \<le> p ! i"
  proof (intro ballI allI impI)
    fix i j assume i: "i \<in> top" and j: "j < V" "j \<notin> top"
    have "j \<in> set (take (V - N) idx)"
      using is_argsort_split[OF a', of j "V - N"] j len by (simp add: top_def)
    then show "p ! j \<le> p ! i" using top_dominates[OF a'] i by (simp add: top_def)
  qed
  have full: "renormalize z = p" if "V \<le> N"
  proof -
    have "top = set idx" using that by (simp add: top_def)
    then have "\<forall>i<V. z ! i = p ! i" using zi a' len by (simp add: is_argsort_def)
    then have "z = p" using lz len by (simp add: list_eq_iff_nth_eq)
    then show ?thesis using one by (simp add: renormalize_def)
  qed
  show ?thesis
    apply (rule exI[of _ c], rule exI[of _ z])
    using pk rc lz zi ctopc dom rnn rsum cV pc ctop rank full
    unfolding top_def idx_def by simp
qed

theorem pick_top_n_samples_top_n_witness:
  "length [1 / 5, 1 / 2, 0, 3 / 10 :: rat] = 4 \<and> (2::nat) \<le> 4
   \<and> list_all (\<lambda>v. 0 \<le> v) [1 / 5, 1 / 2, 0, 3 / 10 :: rat]
   \<and> sum_list [1 / 5, 1 / 2, 0, 3 / 10 :: rat] = 1
   \<and> (1::nat) \<le> 2
   \<and> is_argsort [1 / 5, 1 / 2, 0, 3 / 10] (argsort_insertion [1 / 5, 1 / 2, 0, 3 / 10])
   \<and> (0::rat) \<le> 1 / 2 \<and> (1 / 2 :: rat) < 1
   \<and> fst (pick_top_n argsort_insertion (1 / 2) (\<lambda>_. [1 / 5, 1 / 2, 0, 3 / 10]) 0 4 2) = Inr 1
   \<and> (\<exists>c z. pick_top_n argsort_insertion (1 / 2) (\<lambda>_. [1 / 5, 1 / 2, 0, 3 / 10]) 0 4 2
               = (Inr c, (\<lambda>_. [1 / 5, 1 / 2, 0, 3 / 10])(0 := z))
            \<and> sum_list (renormalize z) = 1
            \<and> c < 4 \<and> 0 < [1 / 5, 1 / 2, 0, 3 / 10 :: rat] ! c
            \<and> card {j. j < 4 \<and> [1 / 5, 1 / 2, 0, 3 / 10 :: rat] ! c < [1 / 5, 1 / 2, 0, 3 / 10] ! j} < 2)"
proof -
  let ?p = "[1 / 5, 1 / 2, 0, 3 / 10 :: rat]"
  have h1: "length ?p = 4" by simp
  have h0: "(2::nat) \<le> 4" by simp
  have h2: "\<forall>v\<in>set ?p. 0 \<le> v" by simp
  have h3: "sum_list ?p = 1" by simp
  have h4: "(1::nat) \<le> 2" by simp
  have h5: "is_argsort ?p (argsort_insertion ?p)" by (rule is_argsort_insertion)
  have h6: "(0::rat) \<le> 1 / 2" "(1 / 2 :: rat) < 1" by simp_all
  have h7: "(\<lambda>_. ?p) (0::nat) = ?p" by simp
  have ev: "fst (pick_top_n argsort_insertion (1 / 2) (\<lambda>_. ?p) 0 4 2) = Inr 1"
    by (simp add: pick_top_n_def np_squeeze_def assign_zero_def Let_def argsort_insertion_def
        all_but_last_def clip_index_def zero_at_def renormalize_def random_choice_def upt_rec)
  have "\<exists>c z. pick_top_n argsort_insertion (1 / 2) (\<lambda>_. ?p) 0 4 2 = (Inr c, (\<lambda>_. ?p)(0 := z))
            \<and> sum_list (renormalize z) = 1
            \<and> c < 4 \<and> 0 < ?p ! c
            \<and> card {j. j < 4 \<and> ?p ! c < ?p ! j} < 2"
    using pick_top_n_samples_top_n [where p = ?p and V = 4 and N = 2 and argsort = argsort_insertion
        and u = "1 / 2" and h = "\<lambda>_. ?p" and preds = 0, OF h1 h0 h2 h3 h4 h5 h6 h7]
    by blast
  with h1 h0 h2 h3 h4 h5 h6 ev show ?thesis by (simp add: list_all_iff)
qed

text \<open>
  C10, as the claim states it: with \<open>top_n = 0\<close> no entry is among the top \<open>N\<close>, yet
  after the call the caller's array is what it was, non-zero entries included.  The
  slice \<^verbatim>\<open>[:-0]\<close> of the order is empty, so nothing is overwritten.
\<close>

theorem pick_top_n_top_zero_counterexample:
  "set (drop (length [1 / 5, 1 / 2, 0, 3 / 10 :: rat] - 0)
          (argsort_insertion [1 / 5, 1 / 2, 0, 3 / 10])) = {}
   \<and> snd (pick_top_n argsort_insertion (1 / 2) (\<lambda>_. [1 / 5, 1 / 2, 0, 3 / 10]) 0 4 0) 0
       = [1 / 5, 1 / 2, 0, 3 / 10]"
  by (simp add: pick_top_n_def np_squeeze_def assign_zero_def Let_def argsort_insertion_def
      all_but_last_def clip_index_def zero_at_def upt_rec)

text \<open>
  C10, amended.  For \<open>top_n \<ge> 1\<close>, \<open>pick_top_n\<close> changes the caller's array.  The squeezed array \<open>p\<close> is the
  buffer at the address \<open>preds\<close> itself, and for an admissible \<open>argsort\<close> the store
  after the call, with \<open>N = top_n\<close>, holds, at \<open>preds\<close>, an array of the same length
  whose entries outside the last \<open>N\<close> indices of the order are zero and whose other
  entries are the original ones, not the renormalised ones: the division wrote
  nothing to the store.  No other address changes.
\<close>

theorem pick_top_n_writes_through:
  assumes N: "1 \<le> N" and a: "is_argsort (h preds) (argsort (h preds))"
  shows "fst (np_squeeze h preds) = preds
     \<and> length (snd (pick_top_n argsort u h preds V N) preds) = length (h preds)
     \<and> (\<forall>i<length (h preds).
           snd (pick_top_n argsort u h preds V N) preds ! i =
             (if i \<in> set (drop (length (h preds) - N) (argsort (h preds))) then h preds ! i else 0))
     \<and> (\<forall>b. b \<noteq> preds \<longrightarrow> snd (pick_top_n argsort u h preds V N) b = h b)"
proof -
  have s: "snd (pick_top_n argsort u h preds V N) =
      h(preds := zero_at (all_but_last N (argsort (h preds))) (h preds))"
    by (rule pick_top_n_store[where h = h and preds = preds and argsort = argsort, OF N a])
  show ?thesis
    unfolding s using zeroed_entries[OF a N]
    by (simp add: np_squeeze_def length_zero_at)
qed

theorem pick_top_n_writes_through_witness:
  "(1::nat) \<le> 2
   \<and> is_argsort [1 / 5, 1 / 2, 0, 3 / 10] (argsort_insertion [1 / 5, 1 / 2, 0, 3 / 10])
   \<and> snd (pick_top_n argsort_insertion (1 / 2) (\<lambda>_. [1 / 5, 1 / 2, 0, 3 / 10]) 0 4 2) 0
       = [0, 1 / 2, 0, 3 / 10]
   \<and> length (snd (pick_top_n argsort_insertion (1 / 2) (\<lambda>_. [1 / 5, 1 / 2, 0, 3 / 10]) 0 4 2) 0) = 4"
proof -
  let ?p = "[1 / 5, 1 / 2, 0, 3 / 10 :: rat]"
  have h1: "(1::nat) \<le> 2" by simp
  have h2: "is_argsort ((\<lambda>_. ?p) (0::nat)) (argsort_insertion ((\<lambda>_. ?p) (0::nat)))"
    by (rule is_argsort_insertion)
  have ev: "snd (pick_top_n argsort_insertion (1 / 2) (\<lambda>_. ?p) 0 4 2) 0 = [0, 1 / 2, 0, 3 / 10]"
    by (simp add: pick_top_n_def np_squeeze_def assign_zero_def Let_def argsort_insertion_def
        all_but_last_def clip_index_def zero_at_def upt_rec)
  have "length (snd (pick_top_n argsort_insertion (1 / 2) (\<lambda>_. ?p) 0 4 2) 0) = 4"
    using pick_top_n_writes_through [where N = 2 and h = "\<lambda>_. ?p" and preds = 0
        and argsort = argsort_insertion and u = "1 / 2" and V = 4] h1 h2
    by simp
  with h1 h2 ev show ?thesis by simp
qed

subsection \<open>The sampler\<close>

text \<open>
  C1.  The claim fails on the code.  Called with the priming string \<open>The \<close> and
  \<open>n_samples = 0\<close>, \<open>sample\<close> does not return \<open>The \<close>: its first statement
  overwrites the argument with \<open>Far\<close>, and one character is picked and appended
  before the loop over \<open>range(n_samples)\<close> starts, so the result is \<open>Far\<close> followed
  by one generated character.  (By \<open>sample_ignores_prime\<close> and \<open>sample_appends\<close>, every
  result is \<open>Far\<close> followed by \<open>n_samples + 1\<close> characters, whatever the argument.)
\<close>

theorem sample_overrides_prime:
  "sample toy_world ''checkpoints/anna/i200_l512_2.432.ckpt'' 0 512 7 ''The '' = Inr ''FarF''"
  by code_simp

end
